theory Spec2Isabelle
  imports Main "HOL-Library.Multiset"
begin

section \<open>Python values used by proyecto2.py\<close>

text \<open>
  Strings are ASCII strings: \<open>str.split()\<close>, \<open>str.lower()\<close> and \<open>str.islower()\<close> are
  modelled on the ASCII range, where Python's whitespace characters are TAB, LF, VT, FF,
  CR, FS, GS, RS, US and the space.
\<close>

type_synonym symbol = string
type_synonym production = "symbol list"

text \<open>
  A Python \<open>dict\<close> keeps its keys in insertion order, and the source iterates over its
  grammars with \<open>.items()\<close>: a dictionary is an association list in insertion order.
\<close>

type_synonym grammar_rules = "(symbol \<times> production list) list"

text \<open>The grammar dictionary \<open>{'start': ..., 'rules': {...}}\<close>; the input grammar holds
  each production as one string, the converted grammar as a list of symbols.\<close>

record 'p grammar_dict =
  start :: symbol
  rules :: "(symbol \<times> 'p list) list"

datatype error = IndexError | KeyError | ValueError | RecursionError | MalformedGrammarError

definition whitespace :: "char list" where
  "whitespace = [CHR 0x09, CHR 0x0A, CHR 0x0B, CHR 0x0C, CHR 0x0D,
                 CHR 0x1C, CHR 0x1D, CHR 0x1E, CHR 0x1F, CHR 0x20]"

definition isspace :: "char \<Rightarrow> bool" where
  "isspace c \<longleftrightarrow> c \<in> set whitespace"

definition uppercase :: "char list" where
  "uppercase = ''ABCDEFGHIJKLMNOPQRSTUVWXYZ''"

definition lowercase :: "char list" where
  "lowercase = ''abcdefghijklmnopqrstuvwxyz''"

definition lower_char :: "char \<Rightarrow> char" where
  "lower_char c = (case map_of (zip uppercase lowercase) c of Some l \<Rightarrow> l | None \<Rightarrow> c)"

text \<open>\<open>s.lower()\<close>\<close>

definition str_lower :: "string \<Rightarrow> string" where
  "str_lower s = map lower_char s"

text \<open>\<open>s.islower()\<close>: at least one cased character, and no uppercase one.\<close>

definition str_islower :: "string \<Rightarrow> bool" where
  "str_islower s \<longleftrightarrow>
     list_ex (\<lambda>c. c \<in> set lowercase) s \<and> list_all (\<lambda>c. c \<notin> set uppercase) s"

text \<open>\<open>s.split()\<close>: the maximal runs of non-whitespace characters, in order.\<close>

fun split_from :: "string \<Rightarrow> string \<Rightarrow> string list" where
  "split_from cur [] = (if cur = [] then [] else [cur])"
| "split_from cur (c # cs) =
     (if isspace c then (if cur = [] then split_from [] cs else cur # split_from [] cs)
      else split_from (cur @ [c]) cs)"

definition str_split :: "string \<Rightarrow> string list" where
  "str_split s = split_from [] s"

text \<open>\<open>str(n)\<close> for a non-negative integer, as the f-string \<open>f"X{n}"\<close> formats it.\<close>

definition digit_char :: "nat \<Rightarrow> char" where
  "digit_char d = ''0123456789'' ! d"

fun str_nat :: "nat \<Rightarrow> string" where
  "str_nat n = (if n < 10 then [digit_char n] else str_nat (n div 10) @ [digit_char (n mod 10)])"

subsection \<open>Dictionary operations\<close>

text \<open>\<open>k in d\<close>\<close>

definition dict_in :: "'k \<Rightarrow> ('k \<times> 'v) list \<Rightarrow> bool" where
  "dict_in k d \<longleftrightarrow> k \<in> fst ` set d"

text \<open>\<open>d[k] = v\<close>: an existing key keeps its position, a new key goes last.\<close>

fun dict_set :: "('k \<times> 'v) list \<Rightarrow> 'k \<Rightarrow> 'v \<Rightarrow> ('k \<times> 'v) list" where
  "dict_set [] k v = [(k, v)]"
| "dict_set ((k', v') # d) k v =
     (if k' = k then (k, v) # d else (k', v') # dict_set d k v)"

text \<open>Reading \<open>d[k]\<close> on a \<open>defaultdict(list)\<close>: a missing key is created with \<open>[]\<close>.\<close>

definition dd_touch :: "('k \<times> 'v list) list \<Rightarrow> 'k \<Rightarrow> ('k \<times> 'v list) list" where
  "dd_touch d k = (if dict_in k d then d else d @ [(k, [])])"

definition dd_get :: "('k \<times> 'v list) list \<Rightarrow> 'k \<Rightarrow> 'v list" where
  "dd_get d k = (case map_of d k of Some xs \<Rightarrow> xs | None \<Rightarrow> [])"

text \<open>\<open>d[k].append(x)\<close> on a \<open>defaultdict(list)\<close>\<close>

fun dd_append :: "('k \<times> 'v list) list \<Rightarrow> 'k \<Rightarrow> 'v \<Rightarrow> ('k \<times> 'v list) list" where
  "dd_append [] k x = [(k, [x])]"
| "dd_append ((k', xs) # d) k x =
     (if k' = k then (k', xs @ [x]) # d else (k', xs) # dd_append d k x)"

text \<open>A Python \<open>set\<close> is kept as the list of its elements in insertion order.\<close>

definition set_add :: "'a list \<Rightarrow> 'a \<Rightarrow> 'a list" where
  "set_add xs x = (if x \<in> set xs then xs else xs @ [x])"

text \<open>
  The order in which CPython iterates over a set of strings depends on the hash seed of
  the process. An iteration order gives, for a set (its insertion history), the sequence
  in which a \<open>for\<close> loop visits its elements: some rearrangement of them. The functions
  that iterate over a set take the iteration order as the parameter \<open>so\<close>, and the
  theorems hold for every iteration order.
\<close>

typedef 'a iteration_order = "{so :: 'a list \<Rightarrow> 'a list. \<forall>xs. mset (so xs) = mset xs}"
  by (rule exI[of _ "\<lambda>xs. xs"]) simp

setup_lifting type_definition_iteration_order

lift_definition visit :: "'a iteration_order \<Rightarrow> 'a list \<Rightarrow> 'a list" is "\<lambda>so xs. so xs" .

lift_definition insertion_order :: "'a iteration_order" is "\<lambda>xs. xs"
  by simp

lemma mset_visit: "mset (visit so xs) = mset xs"
  by transfer simp

lemma set_visit [simp]: "set (visit so xs) = set xs"
  by (metis mset_visit set_mset_mset)

lemma visit_insertion_order [simp]: "visit insertion_order xs = xs"
  by transfer simp

text \<open>A loop whose body may raise: the first error ends it.\<close>

fun foldM :: "('a \<Rightarrow> 's \<Rightarrow> error + 's) \<Rightarrow> 'a list \<Rightarrow> 's \<Rightarrow> error + 's" where
  "foldM f [] s = Inr s"
| "foldM f (x # xs) s = (case f x s of Inl e \<Rightarrow> Inl e | Inr s' \<Rightarrow> foldM f xs s')"

section \<open>class CFGtoCNF\<close>

text \<open>\<open>get_new_variable\<close>: increments \<open>new_var_counter\<close> and returns \<open>X<counter>\<close>;
  the result is the variable and the new counter.\<close>

definition get_new_variable :: "nat \<Rightarrow> symbol \<times> nat" where
  "get_new_variable new_var_counter =
     (''X'' @ str_nat (new_var_counter + 1), new_var_counter + 1)"

text \<open>\<open>eliminate_start_symbol\<close>: \<open>self.grammar\<close> starts empty, receives \<open>S0\<close> and then
  every rule of the original grammar with its productions split into symbols. The new
  value of \<open>self.start_symbol\<close> is \<open>S0\<close>.\<close>

definition eliminate_start_symbol :: "string grammar_dict \<Rightarrow> grammar_rules" where
  "eliminate_start_symbol G =
     fold (\<lambda>(var, productions) g. dict_set g var (map str_split productions))
       (rules G) (dict_set [] ''S0'' [[start G]])"

text \<open>\<open>eliminate_epsilon_productions\<close>. One run of the \<open>for\<close> loop inside \<open>while changed\<close>:
  the set \<open>nullable\<close> is only tested for membership and emptiness.\<close>

definition nullable_pass :: "grammar_rules \<Rightarrow> symbol set \<Rightarrow> symbol set \<times> bool" where
  "nullable_pass g nullable =
     fold (\<lambda>(var, productions) (nullable, changed).
             if var \<notin> nullable \<and>
                list_ex (\<lambda>prod. list_all (\<lambda>symbol. symbol \<in> nullable) prod) productions
             then (insert var nullable, True)
             else (nullable, changed))
       g (nullable, False)"

lemma nullable_pass_fold:
  "fold (\<lambda>(var, productions) (nullable, changed).
             if var \<notin> nullable \<and>
                list_ex (\<lambda>prod. list_all (\<lambda>symbol. symbol \<in> nullable) prod) productions
             then (insert var nullable, True)
             else (nullable, changed)) g (nl, ch) = (nl', ch')
   \<Longrightarrow> nl \<subseteq> nl' \<and> (ch' \<longrightarrow> ch \<or> (\<exists>v \<in> fst ` set g. v \<in> nl' \<and> v \<notin> nl))"
proof (induction g arbitrary: nl ch)
  case Nil
  then show ?case by simp
next
  case (Cons a g)
  obtain var productions where a: "a = (var, productions)" by (cases a)
  show ?case
  proof (cases "var \<notin> nl \<and>
      list_ex (\<lambda>prod. list_all (\<lambda>symbol. symbol \<in> nl) prod) productions")
    case True
    with Cons.prems a have "fold (\<lambda>(var, productions) (nullable, changed).
             if var \<notin> nullable \<and>
                list_ex (\<lambda>prod. list_all (\<lambda>symbol. symbol \<in> nullable) prod) productions
             then (insert var nullable, True)
             else (nullable, changed)) g (insert var nl, True) = (nl', ch')"
      by simp
    from Cons.IH[OF this] True a show ?thesis by auto
  next
    case False
    with Cons.prems a have "fold (\<lambda>(var, productions) (nullable, changed).
             if var \<notin> nullable \<and>
                list_ex (\<lambda>prod. list_all (\<lambda>symbol. symbol \<in> nullable) prod) productions
             then (insert var nullable, True)
             else (nullable, changed)) g (nl, ch) = (nl', ch')"
      by auto
    from Cons.IH[OF this] a show ?thesis by auto
  qed
qed

lemma nullable_pass_changed:
  assumes "nullable_pass g nl = (nl', True)"
  shows "card (fst ` set g - nl') < card (fst ` set g - nl)"
proof -
  from nullable_pass_fold[OF assms[unfolded nullable_pass_def]]
  obtain v where sub: "nl \<subseteq> nl'" and v: "v \<in> fst ` set g" "v \<in> nl'" "v \<notin> nl"
    by auto
  have "fst ` set g - nl' \<subset> fst ` set g - nl"
    using sub v by auto
  then show ?thesis
    by (simp add: psubset_card_mono)
qed

function nullable_loop :: "grammar_rules \<Rightarrow> symbol set \<Rightarrow> symbol set" where
  "nullable_loop g nullable =
     (case nullable_pass g nullable of
        (nullable', changed) \<Rightarrow> if changed then nullable_loop g nullable' else nullable')"
  by pat_completeness auto
termination
  by (relation "measure (\<lambda>(g, nl). card (fst ` set g - nl))")
     (auto simp: nullable_pass_changed)

declare nullable_loop.simps [simp del]

text \<open>\<open>_generate_combinations\<close>: appends the production as it is.\<close>

definition generate_combinations ::
  "grammar_rules \<Rightarrow> symbol \<Rightarrow> production \<Rightarrow> symbol set \<Rightarrow> grammar_rules" where
  "generate_combinations new_grammar var prd nullable = dd_append new_grammar var prd"

definition eliminate_epsilon_productions :: "grammar_rules \<Rightarrow> grammar_rules" where
  "eliminate_epsilon_productions g =
     (let nullable = nullable_loop g {} in
      if nullable \<noteq> {} then
        fold (\<lambda>(var, productions) new_grammar.
                fold (\<lambda>prod new_grammar.
                        if prod \<noteq> [''''] then generate_combinations new_grammar var prod nullable
                        else new_grammar)
                  productions new_grammar)
          g []
      else g)"

subsection \<open>Helper facts: rebuilding a dictionary with \<open>defaultdict(list)\<close>\<close>

lemma dd_append_new: "k \<notin> fst ` set d \<Longrightarrow> dd_append d k x = d @ [(k, [x])]"
  by (induction d) auto

lemma dd_append_last:
  "k \<notin> fst ` set d \<Longrightarrow> dd_append (d @ [(k, xs)]) k x = d @ [(k, xs @ [x])]"
  by (induction d) auto

lemma fold_dd_append_last:
  "k \<notin> fst ` set d \<Longrightarrow>
   fold (\<lambda>x d. dd_append d k x) ys (d @ [(k, xs)]) = d @ [(k, xs @ ys)]"
  by (induction ys arbitrary: xs) (auto simp: dd_append_last)

lemma fold_dd_append_new:
  "k \<notin> fst ` set d \<Longrightarrow>
   fold (\<lambda>x d. dd_append d k x) ys d = (if ys = [] then d else d @ [(k, ys)])"
proof (cases ys)
  case Nil
  then show ?thesis by simp
next
  case (Cons y ys')
  assume k: "k \<notin> fst ` set d"
  then show ?thesis
    using fold_dd_append_last[OF k, of ys' "[y]"] Cons by (simp add: dd_append_new)
qed

lemma fold_append_skip:
  "fold (\<lambda>prod new_grammar.
           if prod \<noteq> [''''] then generate_combinations new_grammar var prod nullable
           else new_grammar) ps acc
   = fold (\<lambda>x d. dd_append d var x) (filter (\<lambda>p. p \<noteq> ['''']) ps) acc"
  by (induction ps arbitrary: acc) (auto simp: generate_combinations_def)

lemma rebuild_general:
  assumes "distinct (map fst g)" "fst ` set acc \<inter> fst ` set g = {}"
  shows "fold (\<lambda>(var, productions) new_grammar.
                fold (\<lambda>prod new_grammar.
                        if prod \<noteq> [''''] then generate_combinations new_grammar var prod nullable
                        else new_grammar)
                  productions new_grammar)
          g acc
     = acc @ filter (\<lambda>(v, ps). ps \<noteq> [])
               (map (\<lambda>(v, ps). (v, filter (\<lambda>p. p \<noteq> ['''']) ps)) g)"
  using assms
proof (induction g arbitrary: acc)
  case Nil
  then show ?case by simp
next
  case (Cons a g)
  obtain var ps where a: "a = (var, ps)" by (cases a)
  have var: "var \<notin> fst ` set acc" using Cons.prems(2) a by auto
  let ?ps = "filter (\<lambda>p. p \<noteq> ['''']) ps"
  let ?acc' = "if ?ps = [] then acc else acc @ [(var, ?ps)]"
  have step: "fold (\<lambda>prod new_grammar.
           if prod \<noteq> [''''] then generate_combinations new_grammar var prod nullable
           else new_grammar) ps acc = ?acc'"
    unfolding fold_append_skip using fold_dd_append_new[OF var, of ?ps] by simp
  have disj: "fst ` set ?acc' \<inter> fst ` set g = {}"
    using Cons.prems(1,2) a by (auto simp: image_iff)
  have "distinct (map fst g)" using Cons.prems by auto
  from Cons.IH[OF this disj] show ?case
    using a step by simp
qed

section \<open>The epsilon pass\<close>

text \<open>
  C8 (as amended): \<open>eliminate_epsilon_productions\<close> returns the grammar as it is when the
  set \<open>nullable\<close> that it computes is empty. When the set is not empty it rebuilds the
  grammar: every production that is the one-element list of the empty string is
  removed, then every non-terminal left with no production loses its entry; the
  productions and the non-terminals that remain keep their order. (The grammar is a
  dictionary: no key occurs twice.)
\<close>

theorem eliminate_epsilon_productions_rebuilds:
  assumes "distinct (map fst g)"
  shows "eliminate_epsilon_productions g =
     (if nullable_loop g {} = {} then g
      else filter (\<lambda>(var, productions). productions \<noteq> [])
             (map (\<lambda>(var, productions). (var, filter (\<lambda>prod. prod \<noteq> ['''']) productions)) g))"
  using rebuild_general[OF assms, of "[]"]
  by (simp add: eliminate_epsilon_productions_def Let_def)

theorem eliminate_epsilon_productions_rebuilds_witness:
  "distinct (map fst [(''S0'', [['''']]), (''S'', [[''a'', ''S''], []]), (''A'', [])]) \<and>
   eliminate_epsilon_productions [(''S0'', [['''']]), (''S'', [[''a'', ''S''], []]), (''A'', [])]
     = [(''S'', [[''a'', ''S''], []])]"
proof -
  let ?g = "[(''S0'', [['''']]), (''S'', [[''a'', ''S''], []]), (''A'', [])]"
  have d: "distinct (map fst ?g)" by simp
  have n: "nullable_loop ?g {} \<noteq> {}"
    by (simp add: nullable_loop.simps nullable_pass_def)
  show ?thesis
    using eliminate_epsilon_productions_rebuilds[OF d] n by simp
qed

text \<open>
  C8 as stated fails: with the rules \<open>{'S': [''], 'A': []}\<close> and the start symbol \<open>S\<close>,
  \<open>S\<close> is nullable, the grammar is rebuilt, and \<open>A\<close> has no entry afterwards.
\<close>

theorem eliminate_epsilon_productions_changes_grammar:
  "eliminate_epsilon_productions
     (eliminate_start_symbol \<lparr>start = ''S'', rules = [(''S'', ['''']), (''A'', [])]\<rparr>)
   \<noteq> eliminate_start_symbol \<lparr>start = ''S'', rules = [(''S'', ['''']), (''A'', [])]\<rparr>"
proof -
  have g: "eliminate_start_symbol \<lparr>start = ''S'', rules = [(''S'', ['''']), (''A'', [])]\<rparr>
      = [(''S0'', [[''S'']]), (''S'', [[]]), (''A'', [])]"
    by (simp add: eliminate_start_symbol_def str_split_def)
  have "eliminate_epsilon_productions [(''S0'', [[''S'']]), (''S'', [[]]), (''A'', [])]
      = [(''S0'', [[''S'']]), (''S'', [[]])]"
    by (simp add: eliminate_epsilon_productions_def nullable_loop.simps nullable_pass_def
        generate_combinations_def)
  then show ?thesis
    unfolding g by simp
qed

section \<open>Unit productions\<close>

text \<open>
  \<open>eliminate_unit_productions\<close>. \<open>unit_pairs\<close> is a \<open>defaultdict(set)\<close>: a function from a
  variable to its set, empty where nothing was added. First every variable of the
  grammar is paired with itself.
\<close>

definition unit_pairs_init :: "grammar_rules \<Rightarrow> (symbol \<Rightarrow> symbol list)" where
  "unit_pairs_init g =
     fold (\<lambda>(var, productions) unit_pairs. unit_pairs(var := set_add (unit_pairs var) var))
       g (\<lambda>_. [])"

text \<open>The body of \<open>for C in unit_pairs[B]\<close>.\<close>

definition unit_pairs_add ::
  "symbol \<Rightarrow> symbol \<Rightarrow> (symbol \<Rightarrow> symbol list) \<times> bool \<Rightarrow> (symbol \<Rightarrow> symbol list) \<times> bool" where
  "unit_pairs_add var C st =
     (case st of (unit_pairs, changed) \<Rightarrow>
        if C \<notin> set (unit_pairs var)
        then (unit_pairs(var := set_add (unit_pairs var) C), True)
        else (unit_pairs, changed))"

text \<open>The body of \<open>for prod in self.grammar[var]\<close>: a unit production \<open>var -> B\<close> adds
  the set of \<open>B\<close> to the set of \<open>var\<close>.\<close>

definition unit_pairs_prod ::
  "symbol iteration_order \<Rightarrow> grammar_rules \<Rightarrow> symbol \<Rightarrow> production \<Rightarrow>
   (symbol \<Rightarrow> symbol list) \<times> bool \<Rightarrow> (symbol \<Rightarrow> symbol list) \<times> bool" where
  "unit_pairs_prod so g var prd st =
     (if length prd = 1 \<and> dict_in (prd ! 0) g
      then (let B = prd ! 0 in fold (unit_pairs_add var) (visit so (fst st B)) st)
      else st)"

text \<open>One run of \<open>for var in self.grammar\<close> inside \<open>while changed\<close>; for a dictionary,
  \<open>self.grammar[var]\<close> is the value stored with the key \<open>var\<close>.\<close>

definition unit_pairs_pass ::
  "symbol iteration_order \<Rightarrow> grammar_rules \<Rightarrow> (symbol \<Rightarrow> symbol list) \<Rightarrow>
   (symbol \<Rightarrow> symbol list) \<times> bool" where
  "unit_pairs_pass so g unit_pairs =
     fold (\<lambda>(var, productions) st. fold (unit_pairs_prod so g var) productions st)
       g (unit_pairs, False)"

text \<open>
  The loop ends because the sets only grow, inside a finite universe: the symbols that
  sit in the set of some variable of the grammar.
\<close>

definition pairs_universe :: "grammar_rules \<Rightarrow> (symbol \<Rightarrow> symbol list) \<Rightarrow> symbol set" where
  "pairs_universe g up = (\<Union>v \<in> fst ` set g. set (up v))"

definition pairs_missing :: "grammar_rules \<Rightarrow> (symbol \<Rightarrow> symbol list) \<Rightarrow> nat" where
  "pairs_missing g up = (\<Sum>v \<in> fst ` set g. card (pairs_universe g up - set (up v)))"

text \<open>What one pass keeps true of the sets \<open>up'\<close> it has reached from \<open>up\<close>.\<close>

definition pass_inv ::
  "grammar_rules \<Rightarrow> (symbol \<Rightarrow> symbol list) \<Rightarrow> (symbol \<Rightarrow> symbol list) \<times> bool \<Rightarrow> bool" where
  "pass_inv g up st \<longleftrightarrow>
     (\<forall>v. set (up v) \<subseteq> set (fst st v)) \<and>
     (\<forall>v \<in> fst ` set g. set (fst st v) \<subseteq> pairs_universe g up) \<and>
     (snd st \<longrightarrow> (\<exists>v \<in> fst ` set g. \<not> set (fst st v) \<subseteq> set (up v)))"

lemma fold_invariant:
  assumes "I s" "\<And>x s. x \<in> set xs \<Longrightarrow> I s \<Longrightarrow> I (f x s)"
  shows "I (fold f xs s)"
  using assms by (induction xs arbitrary: s) auto

lemma pass_inv_add:
  assumes "pass_inv g up st" "var \<in> fst ` set g" "C \<in> pairs_universe g up"
  shows "pass_inv g up (unit_pairs_add var C st)"
proof (cases st)
  case (Pair u ch)
  show ?thesis
  proof (cases "C \<in> set (u var)")
    case True
    then show ?thesis using assms(1) Pair by (simp add: unit_pairs_add_def)
  next
    case False
    have "C \<notin> set (up var)" using assms(1) False Pair by (auto simp: pass_inv_def)
    then have "\<exists>v \<in> fst ` set g. \<not> set ((u(var := set_add (u var) C)) v) \<subseteq> set (up v)"
      using assms(2) by (intro bexI[of _ var]) (auto simp: set_add_def)
    moreover have "\<forall>v. set (up v) \<subseteq> set ((u(var := set_add (u var) C)) v)"
      using assms(1) Pair by (auto simp: pass_inv_def set_add_def)
    moreover have "\<forall>v \<in> fst ` set g. set ((u(var := set_add (u var) C)) v) \<subseteq> pairs_universe g up"
      using assms(1,3) Pair by (auto simp: pass_inv_def set_add_def)
    ultimately show ?thesis
      using False Pair by (simp add: unit_pairs_add_def pass_inv_def)
  qed
qed

lemma pass_inv_prod:
  assumes "pass_inv g up st" "var \<in> fst ` set g"
  shows "pass_inv g up (unit_pairs_prod so g var prd st)"
proof (cases "length prd = 1 \<and> dict_in (prd ! 0) g")
  case True
  then have B: "prd ! 0 \<in> fst ` set g" by (simp add: dict_in_def)
  have "set (fst st (prd ! 0)) \<subseteq> pairs_universe g up"
    using assms(1) B unfolding pass_inv_def by blast
  then have C: "\<And>C. C \<in> set (visit so (fst st (prd ! 0))) \<Longrightarrow> C \<in> pairs_universe g up"
    by auto
  have "pass_inv g up (fold (unit_pairs_add var) (visit so (fst st (prd ! 0))) st)"
  proof (rule fold_invariant[where I = "pass_inv g up", OF assms(1)])
    fix x s
    assume "x \<in> set (visit so (fst st (prd ! 0)))" "pass_inv g up s"
    then show "pass_inv g up (unit_pairs_add var x s)"
      using C assms(2) by (intro pass_inv_add)
  qed
  then show ?thesis using True by (simp add: unit_pairs_prod_def)
next
  case False
  then show ?thesis using assms(1) by (auto simp: unit_pairs_prod_def)
qed

lemma pass_inv_pass: "pass_inv g up (unit_pairs_pass so g up)"
proof -
  have init: "pass_inv g up (up, False)"
    by (auto simp: pass_inv_def pairs_universe_def)
  have "pass_inv g up (fold (\<lambda>(var, productions) st. fold (unit_pairs_prod so g var) productions st)
       g (up, False))"
  proof (rule fold_invariant[where I = "pass_inv g up", OF init])
    fix x :: "symbol \<times> production list" and s
    assume x: "x \<in> set g" and s: "pass_inv g up s"
    obtain var productions where xx: "x = (var, productions)" by (cases x)
    have "var \<in> fst ` set g" using x xx by force
    then have "pass_inv g up (fold (unit_pairs_prod so g var) productions s)"
      using s by (intro fold_invariant[where I = "pass_inv g up"] pass_inv_prod)
    then show "pass_inv g up ((case x of (var, productions) \<Rightarrow>
        \<lambda>st. fold (unit_pairs_prod so g var) productions st) s)"
      using xx by simp
  qed
  then show ?thesis by (simp add: unit_pairs_pass_def)
qed

lemma unit_pairs_pass_changed:
  assumes "unit_pairs_pass so g up = (up', True)"
  shows "pairs_missing g up' < pairs_missing g up"
proof -
  have inv: "pass_inv g up (up', True)"
    using pass_inv_pass[of g up so] assms by simp
  have mono: "\<And>v. set (up v) \<subseteq> set (up' v)"
    and bound: "\<And>v. v \<in> fst ` set g \<Longrightarrow> set (up' v) \<subseteq> pairs_universe g up"
    using inv by (auto simp: pass_inv_def)
  obtain w where w: "w \<in> fst ` set g" "\<not> set (up' w) \<subseteq> set (up w)"
    using inv by (auto simp: pass_inv_def)
  have "pairs_universe g up \<subseteq> pairs_universe g up'"
    unfolding pairs_universe_def using mono by blast
  moreover have "pairs_universe g up' \<subseteq> pairs_universe g up"
    using bound unfolding pairs_universe_def[of g up'] by blast
  ultimately have univ: "pairs_universe g up' = pairs_universe g up"
    by simp
  have fin: "finite (pairs_universe g up)"
    by (simp add: pairs_universe_def)
  have le: "\<forall>v \<in> fst ` set g.
      card (pairs_universe g up - set (up' v)) \<le> card (pairs_universe g up - set (up v))"
    using mono fin by (auto intro!: card_mono)
  have "pairs_universe g up - set (up' w) \<subset> pairs_universe g up - set (up w)"
    using mono[of w] w bound[OF w(1)] by auto
  then have "card (pairs_universe g up - set (up' w)) < card (pairs_universe g up - set (up w))"
    using fin by (intro psubset_card_mono) auto
  then have "(\<Sum>v \<in> fst ` set g. card (pairs_universe g up - set (up' v)))
      < (\<Sum>v \<in> fst ` set g. card (pairs_universe g up - set (up v)))"
    using le w(1) by (intro sum_strict_mono_ex1) auto
  then show ?thesis
    by (simp add: pairs_missing_def univ)
qed

function unit_pairs_loop ::
  "symbol iteration_order \<Rightarrow> grammar_rules \<Rightarrow> (symbol \<Rightarrow> symbol list) \<Rightarrow> (symbol \<Rightarrow> symbol list)" where
  "unit_pairs_loop so g unit_pairs =
     (case unit_pairs_pass so g unit_pairs of
        (unit_pairs', changed) \<Rightarrow>
          if changed then unit_pairs_loop so g unit_pairs' else unit_pairs')"
  by pat_completeness auto
termination
  by (relation "measure (\<lambda>(so, g, up). pairs_missing g up)")
     (auto simp: unit_pairs_pass_changed)

declare unit_pairs_loop.simps [simp del]

text \<open>
  The second half builds the new grammar. The test
  \<open>len(prod) > 1 or prod[0] not in self.grammar\<close> reads \<open>prod[0]\<close> of an empty production,
  which raises IndexError; \<open>prod not in new_grammar[var]\<close> reads the \<open>defaultdict\<close> and
  so creates the key.
\<close>

definition add_production :: "grammar_rules \<Rightarrow> symbol \<Rightarrow> production \<Rightarrow> grammar_rules" where
  "add_production new_grammar var prd =
     (let new_grammar = dd_touch new_grammar var in
      if prd \<notin> set (dd_get new_grammar var) then dd_append new_grammar var prd
      else new_grammar)"

definition unit_build_prod ::
  "grammar_rules \<Rightarrow> symbol \<Rightarrow> production \<Rightarrow> grammar_rules \<Rightarrow> error + grammar_rules" where
  "unit_build_prod g var prd new_grammar =
     (if length prd > 1 then Inr (add_production new_grammar var prd)
      else if prd = [] then Inl IndexError
      else if \<not> dict_in (prd ! 0) g then Inr (add_production new_grammar var prd)
      else Inr new_grammar)"

text \<open>The body of \<open>for B in unit_pairs[var]\<close>; \<open>self.grammar[B]\<close> raises KeyError for a
  missing key.\<close>

definition unit_build_pair ::
  "grammar_rules \<Rightarrow> symbol \<Rightarrow> symbol \<Rightarrow> grammar_rules \<Rightarrow> error + grammar_rules" where
  "unit_build_pair g var B new_grammar =
     (case map_of g B of
        None \<Rightarrow> Inl KeyError
      | Some productions \<Rightarrow> foldM (unit_build_prod g var) productions new_grammar)"

definition eliminate_unit_productions ::
  "symbol iteration_order \<Rightarrow> grammar_rules \<Rightarrow> error + grammar_rules" where
  "eliminate_unit_productions so g =
     (let unit_pairs = unit_pairs_loop so g (unit_pairs_init g) in
      foldM (\<lambda>(var, productions) new_grammar.
               foldM (unit_build_pair g var) (visit so (unit_pairs var)) new_grammar)
        g [])"

subsection \<open>What the new grammar of the unit pass holds\<close>

lemma foldM_invariant:
  assumes "foldM f xs s = Inr s'" "I s"
    and "\<And>x s s'. x \<in> set xs \<Longrightarrow> I s \<Longrightarrow> f x s = Inr s' \<Longrightarrow> I s'"
  shows "I s'"
  using assms
proof (induction xs arbitrary: s)
  case Nil
  then show ?case by simp
next
  case (Cons x xs)
  from Cons.prems(1) obtain s1 where s1: "f x s = Inr s1" "foldM f xs s1 = Inr s'"
    by (auto split: sum.splits)
  have "I s1" using Cons.prems(2,3) s1(1) by auto
  then show ?case
    using Cons.IH[OF s1(2)] Cons.prems(3) by auto
qed

lemma dd_get_cases: "dd_get d k = [] \<or> (k, dd_get d k) \<in> set d"
  by (auto simp: dd_get_def split: option.splits dest: map_of_SomeD)

lemma dd_get_touch [simp]: "dd_get (dd_touch d k) k = dd_get d k"
proof (cases "dict_in k d")
  case True
  then show ?thesis by (simp add: dd_touch_def)
next
  case False
  then have "map_of d k = None"
    by (simp add: dict_in_def map_of_eq_None_iff)
  then show ?thesis
    using False by (simp add: dd_touch_def dd_get_def map_add_def)
qed

lemma set_dd_touch: "set (dd_touch d k) \<subseteq> insert (k, []) (set d)"
  by (auto simp: dd_touch_def)

lemma set_dd_append: "set (dd_append d k x) \<subseteq> insert (k, dd_get d k @ [x]) (set d)"
  by (induction d) (auto simp: dd_get_def)

lemma set_add_production:
  assumes "(v, ps) \<in> set (add_production d k x)"
  shows "(v, ps) \<in> set d \<or> (v = k \<and> ps = []) \<or>
         (v = k \<and> ps = dd_get d k @ [x] \<and> x \<notin> set (dd_get d k))"
proof (cases "x \<in> set (dd_get d k)")
  case True
  then show ?thesis
    using assms set_dd_touch[of d k] by (auto simp: add_production_def)
next
  case False
  then have "(v, ps) \<in> set (dd_append (dd_touch d k) k x)"
    using assms by (simp add: add_production_def)
  then have "(v, ps) = (k, dd_get d k @ [x]) \<or> (v, ps) \<in> set (dd_touch d k)"
    using set_dd_append[of "dd_touch d k" k x] by auto
  then show ?thesis
    using False set_dd_touch[of d k] by auto
qed

text \<open>The entries of the new grammar: variables of the old grammar, each with a
  duplicate-free list of productions none of which is a unit production.\<close>

definition unit_free :: "grammar_rules \<Rightarrow> grammar_rules \<Rightarrow> bool" where
  "unit_free g new_grammar \<longleftrightarrow>
     (\<forall>(var, productions) \<in> set new_grammar.
        dict_in var g \<and> distinct productions \<and>
        (\<forall>prd \<in> set productions. prd \<noteq> [] \<and> \<not> (length prd = 1 \<and> dict_in (prd ! 0) g)))"

lemma unit_free_add_production:
  assumes "unit_free g d" "dict_in var g" "prd \<noteq> []" "\<not> (length prd = 1 \<and> dict_in (prd ! 0) g)"
  shows "unit_free g (add_production d var prd)"
  unfolding unit_free_def
proof (intro ballI, clarify)
  fix v ps
  assume "(v, ps) \<in> set (add_production d var prd)"
  then consider "(v, ps) \<in> set d" | "v = var" "ps = []"
    | "v = var" "ps = dd_get d var @ [prd]" "prd \<notin> set (dd_get d var)"
    using set_add_production by blast
  then show "dict_in v g \<and> distinct ps \<and>
      (\<forall>prd \<in> set ps. prd \<noteq> [] \<and> \<not> (length prd = 1 \<and> dict_in (prd ! 0) g))"
  proof cases
    case 1
    then show ?thesis using assms(1) by (auto simp: unit_free_def)
  next
    case 2
    then show ?thesis using assms(2) by simp
  next
    case 3
    have old: "distinct (dd_get d var) \<and>
        (\<forall>p \<in> set (dd_get d var). p \<noteq> [] \<and> \<not> (length p = 1 \<and> dict_in (p ! 0) g))"
      using dd_get_cases[of d var] assms(1) by (auto simp: unit_free_def)
    then show ?thesis using 3 assms(2,3,4) by auto
  qed
qed

lemma unit_free_build_prod:
  assumes "unit_free g d" "dict_in var g" "unit_build_prod g var prd d = Inr d'"
  shows "unit_free g d'"
proof (cases "length prd > 1")
  case True
  then have "d' = add_production d var prd" "prd \<noteq> []"
    using assms(3) by (auto simp: unit_build_prod_def)
  then show ?thesis
    using unit_free_add_production[OF assms(1,2)] True by auto
next
  case False
  then have ne: "prd \<noteq> []"
    using assms(3) by (auto simp: unit_build_prod_def split: if_splits)
  show ?thesis
  proof (cases "dict_in (prd ! 0) g")
    case True
    then show ?thesis
      using assms(1,3) False ne by (simp add: unit_build_prod_def)
  next
    case F: False
    then have "d' = add_production d var prd"
      using assms(3) False ne by (simp add: unit_build_prod_def)
    then show ?thesis
      using unit_free_add_production[OF assms(1,2) ne] F by auto
  qed
qed

lemma unit_free_build_pair:
  assumes "unit_free g d" "dict_in var g" "unit_build_pair g var B d = Inr d'"
  shows "unit_free g d'"
proof -
  from assms(3) obtain productions where
    "foldM (unit_build_prod g var) productions d = Inr d'"
    by (auto simp: unit_build_pair_def split: option.splits)
  then show ?thesis
    using assms(1)
    by (rule foldM_invariant[where I = "unit_free g"]) (rule unit_free_build_prod[OF _ assms(2)])
qed

lemma unit_free_eliminate:
  assumes "eliminate_unit_productions so g = Inr g'"
  shows "unit_free g g'"
proof -
  define up where "up = unit_pairs_loop so g (unit_pairs_init g)"
  have run: "foldM (\<lambda>(var, productions) new_grammar.
               foldM (unit_build_pair g var) (visit so (up var)) new_grammar) g [] = Inr g'"
    using assms by (simp add: eliminate_unit_productions_def up_def)
  have init: "unit_free g []" by (simp add: unit_free_def)
  show ?thesis
  proof (rule foldM_invariant[where I = "unit_free g", OF run init])
    fix x :: "symbol \<times> production list" and s s'
    assume x: "x \<in> set g" and s: "unit_free g s"
      and step: "(case x of (var, productions) \<Rightarrow> \<lambda>new_grammar.
               foldM (unit_build_pair g var) (visit so (up var)) new_grammar) s = Inr s'"
    obtain var productions where xx: "x = (var, productions)" by (cases x)
    have var: "dict_in var g" using x xx by (force simp: dict_in_def)
    have "foldM (unit_build_pair g var) (visit so (up var)) s = Inr s'"
      using step xx by simp
    then show "unit_free g s'"
      using s
      by (rule foldM_invariant[where I = "unit_free g"]) (rule unit_free_build_pair[OF _ var])
  qed
qed

text \<open>
  C7: after \<open>eliminate_unit_productions\<close> has returned, no production of any non-terminal
  is a single symbol that is a non-terminal of the grammar (the one the pass received,
  whose non-terminals include all those of the one it returns), and no non-terminal's
  production list holds the same body twice.
\<close>

theorem eliminate_unit_productions_no_unit_no_duplicate:
  assumes "eliminate_unit_productions so g = Inr g'"
    and "(var, productions) \<in> set g'"
  shows "distinct productions \<and>
         (\<forall>prd \<in> set productions.
            \<not> (length prd = 1 \<and> (dict_in (prd ! 0) g \<or> dict_in (prd ! 0) g')))"
proof -
  have uf: "unit_free g g'" by (rule unit_free_eliminate[OF assms(1)])
  have keys: "\<And>k. dict_in k g' \<Longrightarrow> dict_in k g"
    using uf by (force simp: unit_free_def dict_in_def)
  show ?thesis
    using uf assms(2) keys by (fastforce simp: unit_free_def)
qed

text \<open>Unfolding the unit pass on a concrete grammar.\<close>

lemmas unit_eval = eliminate_unit_productions_def unit_pairs_loop.simps unit_pairs_init_def
  unit_pairs_pass_def unit_pairs_prod_def unit_pairs_add_def set_add_def dict_in_def
  unit_build_pair_def unit_build_prod_def add_production_def dd_touch_def dd_get_def Let_def

theorem eliminate_unit_productions_no_unit_no_duplicate_witness:
  "eliminate_unit_productions insertion_order
     [(''S0'', [[''S'']]), (''S'', [[''A''], [''a'', ''S''], [''b'']]), (''A'', [[''b''], [''S'']])]
   = Inr [(''S0'', [[''a'', ''S''], [''b'']]), (''S'', [[''a'', ''S''], [''b'']]),
          (''A'', [[''b''], [''a'', ''S'']])] \<and>
   distinct [[''b''], [''a'', ''S'']] \<and>
   \<not> dict_in ''b''
     [(''S0'', [[''S'']]), (''S'', [[''A''], [''a'', ''S''], [''b'']]), (''A'', [[''b''], [''S'']])]"
proof -
  let ?g = "[(''S0'', [[''S'']]), (''S'', [[''A''], [''a'', ''S''], [''b'']]), (''A'', [[''b''], [''S'']])]"
  let ?g' = "[(''S0'', [[''a'', ''S''], [''b'']]), (''S'', [[''a'', ''S''], [''b'']]),
          (''A'', [[''b''], [''a'', ''S'']])]"
  have run: "eliminate_unit_productions insertion_order ?g = Inr ?g'"
    by (simp add: unit_eval)
  have mem: "(''A'', [[''b''], [''a'', ''S'']]) \<in> set ?g'" by simp
  show ?thesis
    using eliminate_unit_productions_no_unit_no_duplicate[OF run mem] run by simp
qed

section \<open>Terminals, long productions, and the whole conversion\<close>

text \<open>The test of \<open>convert_terminals\<close> for a terminal:
  \<open>symbol.islower() or symbol in ['a', 'the']\<close>.\<close>

definition is_terminal :: "symbol \<Rightarrow> bool" where
  "is_terminal symbol \<longleftrightarrow> str_islower symbol \<or> symbol \<in> set [''a'', ''the'']"

text \<open>
  \<open>convert_terminals\<close>. The body of \<open>for symbol in prod\<close>: the state is \<open>new_grammar\<close>,
  the dictionary \<open>terminal_vars\<close>, the counter of \<open>get_new_variable\<close> and \<open>new_prod\<close>.
  \<open>new_grammar[terminal_vars[symbol]] = [[symbol]]\<close> is an assignment: it replaces what
  the key held.
\<close>

definition convert_symbol ::
  "symbol \<Rightarrow> grammar_rules \<times> (symbol \<rightharpoonup> symbol) \<times> nat \<times> production \<Rightarrow>
   grammar_rules \<times> (symbol \<rightharpoonup> symbol) \<times> nat \<times> production" where
  "convert_symbol symbol st =
     (case st of (new_grammar, terminal_vars, counter, new_prod) \<Rightarrow>
        if is_terminal symbol then
          (case terminal_vars symbol of
             None \<Rightarrow>
               (case get_new_variable counter of (new_var, counter') \<Rightarrow>
                  (dict_set new_grammar new_var [[symbol]], terminal_vars(symbol \<mapsto> new_var),
                   counter', new_prod @ [new_var]))
           | Some v \<Rightarrow> (new_grammar, terminal_vars, counter, new_prod @ [v]))
        else (new_grammar, terminal_vars, counter, new_prod @ [symbol]))"

text \<open>The body of \<open>for prod in productions\<close>.\<close>

definition convert_production ::
  "symbol \<Rightarrow> production \<Rightarrow> grammar_rules \<times> (symbol \<rightharpoonup> symbol) \<times> nat \<Rightarrow>
   grammar_rules \<times> (symbol \<rightharpoonup> symbol) \<times> nat" where
  "convert_production var prd st =
     (case st of (new_grammar, terminal_vars, counter) \<Rightarrow>
        if length prd = 1 then (dd_append new_grammar var prd, terminal_vars, counter)
        else
          (case fold convert_symbol prd (new_grammar, terminal_vars, counter, []) of
             (new_grammar', terminal_vars', counter', new_prod) \<Rightarrow>
               (dd_append new_grammar' var new_prod, terminal_vars', counter')))"

text \<open>\<open>convert_terminals\<close> takes the grammar and the counter and returns the new ones.\<close>

definition convert_terminals :: "grammar_rules \<Rightarrow> nat \<Rightarrow> grammar_rules \<times> nat" where
  "convert_terminals g counter =
     (case fold (\<lambda>(var, productions) st. fold (convert_production var) productions st)
             g ([], Map.empty, counter) of
        (new_grammar, terminal_vars, counter') \<Rightarrow> (new_grammar, counter'))"

text \<open>
  \<open>break_long_productions\<close>. The body of \<open>for i in range(len(prod) - 2)\<close>: the state is
  \<open>new_grammar\<close>, the counter and \<open>current_var\<close>.
\<close>

definition break_step ::
  "production \<Rightarrow> nat \<Rightarrow> grammar_rules \<times> nat \<times> symbol \<Rightarrow> grammar_rules \<times> nat \<times> symbol" where
  "break_step prd i st =
     (case st of (new_grammar, counter, current_var) \<Rightarrow>
        (case get_new_variable counter of (new_var, counter') \<Rightarrow>
           (dd_append new_grammar current_var [prd ! i, new_var], counter', new_var)))"

text \<open>The body of \<open>for prod in productions\<close>; \<open>prod[-2:]\<close> of a production of three
  symbols or more is its last two symbols.\<close>

definition break_production ::
  "symbol \<Rightarrow> production \<Rightarrow> grammar_rules \<times> nat \<Rightarrow> grammar_rules \<times> nat" where
  "break_production var prd st =
     (case st of (new_grammar, counter) \<Rightarrow>
        if length prd \<le> 2 then (dd_append new_grammar var prd, counter)
        else
          (case fold (break_step prd) [0..<length prd - 2] (new_grammar, counter, var) of
             (new_grammar', counter', current_var) \<Rightarrow>
               (dd_append new_grammar' current_var (drop (length prd - 2) prd), counter')))"

definition break_long_productions :: "grammar_rules \<Rightarrow> nat \<Rightarrow> grammar_rules \<times> nat" where
  "break_long_productions g counter =
     fold (\<lambda>(var, productions) st. fold (break_production var) productions st) g ([], counter)"

text \<open>
  The object after \<open>__init__\<close> and the five passes of \<open>convert\<close>: its grammar, its start
  symbol and its counter, which \<open>__init__\<close> sets to 0.
\<close>

record converter =
  grammar :: grammar_rules
  start_symbol :: symbol
  new_var_counter :: nat

definition run_passes :: "symbol iteration_order \<Rightarrow> string grammar_dict \<Rightarrow> error + converter" where
  "run_passes so G =
     (let g1 = eliminate_start_symbol G;
          g2 = eliminate_epsilon_productions g1
      in case eliminate_unit_productions so g2 of
           Inl e \<Rightarrow> Inl e
         | Inr g3 \<Rightarrow>
             (case convert_terminals g3 0 of (g4, c4) \<Rightarrow>
                (case break_long_productions g4 c4 of (g5, c5) \<Rightarrow>
                   Inr \<lparr>grammar = g5, start_symbol = ''S0'', new_var_counter = c5\<rparr>)))"

text \<open>\<open>convert\<close> returns \<open>{'start': self.start_symbol, 'rules': self.grammar}\<close>.\<close>

definition convert ::
  "symbol iteration_order \<Rightarrow> string grammar_dict \<Rightarrow> error + production grammar_dict" where
  "convert so G =
     (case run_passes so G of
        Inl e \<Rightarrow> Inl e
      | Inr c \<Rightarrow> Inr \<lparr>start = start_symbol c, rules = grammar c\<rparr>)"

text \<open>Unfolding the conversion on a concrete grammar.\<close>

lemmas convert_eval = convert_def run_passes_def eliminate_start_symbol_def str_split_def
  isspace_def whitespace_def
  eliminate_epsilon_productions_def nullable_loop.simps nullable_pass_def generate_combinations_def
  unit_eval convert_terminals_def convert_production_def convert_symbol_def is_terminal_def
  str_islower_def lowercase_def uppercase_def get_new_variable_def digit_char_def
  break_long_productions_def break_production_def break_step_def

section \<open>When the conversion returns\<close>

text \<open>A grammar has an empty production when some body is the empty list, as
  \<open>''.split()\<close> is.\<close>

definition has_empty_production :: "grammar_rules \<Rightarrow> bool" where
  "has_empty_production g \<longleftrightarrow> list_ex (\<lambda>(var, productions). [] \<in> set productions) g"

lemma has_empty_production_iff:
  "has_empty_production g \<longleftrightarrow> (\<exists>var productions. (var, productions) \<in> set g \<and> [] \<in> set productions)"
  by (auto simp: has_empty_production_def list_ex_iff)

subsection \<open>The grammar after the first two passes is a dictionary\<close>

lemma in_keysI: "(k, v) \<in> set d \<Longrightarrow> k \<in> fst ` set d"
  by force

lemma keys_dict_set: "fst ` set (dict_set d k v) = insert k (fst ` set d)"
proof (induction d)
  case Nil
  then show ?case by simp
next
  case (Cons a d)
  then show ?case by (cases a) (simp add: insert_commute)
qed

lemma distinct_dict_set: "distinct (map fst d) \<Longrightarrow> distinct (map fst (dict_set d k v))"
proof (induction d)
  case Nil
  then show ?case by simp
next
  case (Cons a d)
  obtain k' v' where a: "a = (k', v')" by (cases a)
  show ?case
  proof (cases "k' = k")
    case True
    then show ?thesis using Cons.prems a by (simp add: image_iff)
  next
    case False
    have "k' \<notin> fst ` set (dict_set d k v)"
      using Cons.prems a False by (simp add: keys_dict_set)
    then show ?thesis using Cons a False by simp
  qed
qed

lemma distinct_eliminate_start_symbol: "distinct (map fst (eliminate_start_symbol G))"
proof -
  have "distinct (map fst (fold (\<lambda>(var, productions) g. dict_set g var (map str_split productions))
       (rules G) (dict_set [] ''S0'' [[start G]])))"
    by (rule fold_invariant[where I = "\<lambda>g. distinct (map fst g)"])
       (auto simp: distinct_dict_set)
  then show ?thesis by (simp add: eliminate_start_symbol_def)
qed

lemma S0_in_eliminate_start_symbol: "dict_in ''S0'' (eliminate_start_symbol G)"
proof -
  have "dict_in ''S0'' (fold (\<lambda>(var, productions) g. dict_set g var (map str_split productions))
       (rules G) (dict_set [] ''S0'' [[start G]]))"
  proof (rule fold_invariant[where I = "\<lambda>g. dict_in ''S0'' g"])
    show "dict_in ''S0'' (dict_set [] ''S0'' [[start G]])"
      by (simp add: dict_in_def)
  next
    fix x :: "symbol \<times> string list" and s :: grammar_rules
    assume "dict_in ''S0'' s"
    then show "dict_in ''S0'' ((case x of (var, productions) \<Rightarrow>
        \<lambda>g. dict_set g var (map str_split productions)) s)"
      by (cases x) (simp add: dict_in_def keys_dict_set)
  qed
  then show ?thesis by (simp add: eliminate_start_symbol_def)
qed

lemma nullable_pass_no_empty:
  assumes "\<not> has_empty_production g"
  shows "nullable_pass g {} = ({}, False)"
proof -
  have "fold (\<lambda>(var, productions) (nullable, changed).
             if var \<notin> nullable \<and>
                list_ex (\<lambda>prod. list_all (\<lambda>symbol. symbol \<in> nullable) prod) productions
             then (insert var nullable, True)
             else (nullable, changed)) g ({}, False) = ({}, False)"
  proof (rule fold_invariant[where I = "\<lambda>st. st = ({}, False)"])
    fix x :: "symbol \<times> production list" and s :: "symbol set \<times> bool"
    assume x: "x \<in> set g" and s: "s = ({}, False)"
    obtain var productions where xx: "x = (var, productions)" by (cases x)
    have "[] \<notin> set productions"
      using assms x xx by (auto simp: has_empty_production_iff)
    then have "\<not> list_ex (\<lambda>prod. list_all (\<lambda>symbol. symbol \<in> {}) prod) productions"
      by (auto simp: list_ex_iff list_all_iff)
    then show "(case x of (var, productions) \<Rightarrow> \<lambda>(nullable, changed).
             if var \<notin> nullable \<and>
                list_ex (\<lambda>prod. list_all (\<lambda>symbol. symbol \<in> nullable) prod) productions
             then (insert var nullable, True)
             else (nullable, changed)) s = ({}, False)"
      using xx s by simp
  qed simp
  then show ?thesis by (simp add: nullable_pass_def)
qed

lemma eliminate_epsilon_no_empty:
  assumes "\<not> has_empty_production g"
  shows "eliminate_epsilon_productions g = g"
  using nullable_pass_no_empty[OF assms]
  by (simp add: eliminate_epsilon_productions_def nullable_loop.simps)

lemma eliminate_epsilon_dictionary:
  assumes "distinct (map fst g)"
  shows "distinct (map fst (eliminate_epsilon_productions g))"
proof (cases "nullable_loop g {} = {}")
  case True
  then show ?thesis using assms by (simp add: eliminate_epsilon_productions_def)
next
  case False
  have "map fst (map (\<lambda>(v, ps). (v, filter (\<lambda>p. p \<noteq> ['''']) ps)) g) = map fst g"
    by (induction g) auto
  then have "distinct (map fst (map (\<lambda>(v, ps). (v, filter (\<lambda>p. p \<noteq> ['''']) ps)) g))"
    using assms by (simp only:)
  then have "distinct (map fst (filter (\<lambda>(v, ps). ps \<noteq> [])
               (map (\<lambda>(v, ps). (v, filter (\<lambda>p. p \<noteq> ['''']) ps)) g)))"
    by (rule distinct_map_filter)
  then show ?thesis
    using False rebuild_general[OF assms, of "[]"]
    by (simp add: eliminate_epsilon_productions_def Let_def)
qed

lemma eliminate_epsilon_keeps_empty:
  assumes "distinct (map fst g)" "has_empty_production g"
  shows "has_empty_production (eliminate_epsilon_productions g)"
proof (cases "nullable_loop g {} = {}")
  case True
  then show ?thesis using assms by (simp add: eliminate_epsilon_productions_def)
next
  case False
  obtain var productions where vp: "(var, productions) \<in> set g" "[] \<in> set productions"
    using assms(2) by (auto simp: has_empty_production_iff)
  let ?ps = "filter (\<lambda>p. p \<noteq> ['''']) productions"
  have e: "[] \<in> set ?ps" using vp(2) by simp
  then have ne: "?ps \<noteq> []" by (metis empty_iff empty_set)
  have "(var, ?ps) \<in> set (map (\<lambda>(v, ps). (v, filter (\<lambda>p. p \<noteq> ['''']) ps)) g)"
    using vp(1) by force
  then have "(var, ?ps) \<in> set (filter (\<lambda>(v, ps). ps \<noteq> [])
               (map (\<lambda>(v, ps). (v, filter (\<lambda>p. p \<noteq> ['''']) ps)) g)) \<and> [] \<in> set ?ps"
    using ne e by simp
  then have "has_empty_production (filter (\<lambda>(v, ps). ps \<noteq> [])
               (map (\<lambda>(v, ps). (v, filter (\<lambda>p. p \<noteq> ['''']) ps)) g))"
    unfolding has_empty_production_iff by blast
  then show ?thesis
    using False rebuild_general[OF assms(1), of "[]"]
    by (simp add: eliminate_epsilon_productions_def Let_def)
qed

lemma nullable_loop_grows: "nl \<subseteq> nullable_loop g nl"
proof (induction g nl rule: nullable_loop.induct)
  case (1 g nl)
  obtain nl' ch where p: "nullable_pass g nl = (nl', ch)" by (cases "nullable_pass g nl")
  have sub: "nl \<subseteq> nl'"
    using nullable_pass_fold[OF p[unfolded nullable_pass_def]] by simp
  show ?case
  proof (cases ch)
    case True
    have "nl' \<subseteq> nullable_loop g nl'" using "1.IH"[OF p[symmetric] True] .
    then show ?thesis using sub p True by (simp add: nullable_loop.simps[of g nl])
  next
    case False
    then show ?thesis using sub p by (simp add: nullable_loop.simps[of g nl])
  qed
qed

lemma nullable_pass_empty_production:
  assumes "has_empty_production g"
  shows "fst (fold (\<lambda>(var, productions) (nullable, changed).
             if var \<notin> nullable \<and>
                list_ex (\<lambda>prod. list_all (\<lambda>symbol. symbol \<in> nullable) prod) productions
             then (insert var nullable, True)
             else (nullable, changed)) g (nl, ch)) \<noteq> {}"
  using assms
proof (induction g arbitrary: nl ch)
  case Nil
  then show ?case by (simp add: has_empty_production_def)
next
  case (Cons a g)
  let ?f = "\<lambda>(var, productions) (nullable, changed).
             if var \<notin> nullable \<and>
                list_ex (\<lambda>prod. list_all (\<lambda>symbol. symbol \<in> nullable) prod) productions
             then (insert var nullable, True)
             else (nullable, changed)"
  obtain var productions where a: "a = (var, productions)" by (cases a)
  obtain nl1 ch1 where s: "?f a (nl, ch) = (nl1, ch1)" by (cases "?f a (nl, ch)")
  obtain nl2 ch2 where r: "fold ?f g (nl1, ch1) = (nl2, ch2)" by (cases "fold ?f g (nl1, ch1)")
  have mono: "nl1 \<subseteq> nl2" using nullable_pass_fold[OF r] by simp
  show ?case
  proof (cases "[] \<in> set productions")
    case True
    then have "list_ex (\<lambda>prod. list_all (\<lambda>symbol. symbol \<in> nl) prod) productions"
      unfolding list_ex_iff by (intro bexI[of _ "[]"]) simp_all
    then have "var \<in> nl1" using s a by (auto split: if_splits)
    then have "nl2 \<noteq> {}" using mono by blast
    then show ?thesis using s r by simp
  next
    case False
    then have "has_empty_production g"
      using Cons.prems a by (auto simp: has_empty_production_def)
    from Cons.IH[OF this, of nl1 ch1] show ?thesis using s by simp
  qed
qed

text \<open>The set \<open>nullable\<close> is empty exactly when no production is empty.\<close>

lemma nullable_empty_iff: "nullable_loop g {} = {} \<longleftrightarrow> \<not> has_empty_production g"
proof
  assume e: "nullable_loop g {} = {}"
  show "\<not> has_empty_production g"
  proof
    assume h: "has_empty_production g"
    obtain nl' ch where p: "nullable_pass g {} = (nl', ch)" by (cases "nullable_pass g {}")
    have "nl' \<noteq> {}"
      using nullable_pass_empty_production[OF h, of "{}" False] p by (simp add: nullable_pass_def)
    moreover have "nl' \<subseteq> nullable_loop g {}"
      using nullable_loop_grows[of nl' g] p by (simp add: nullable_loop.simps[of g "{}"])
    ultimately show False using e by simp
  qed
next
  assume "\<not> has_empty_production g"
  then show "nullable_loop g {} = {}"
    using nullable_pass_no_empty[of g] by (simp add: nullable_loop.simps[of g "{}"])
qed

subsection \<open>The unit pairs stay inside the grammar\<close>

lemma set_add_idem: "set_add (set_add xs x) x = set_add xs x"
  by (simp add: set_add_def)

lemma unit_pairs_init_fold:
  "fold (\<lambda>(var, productions) unit_pairs. unit_pairs(var := set_add (unit_pairs var) var)) g up v
   = (if v \<in> fst ` set g then set_add (up v) v else up v)"
proof (induction g arbitrary: up)
  case Nil
  then show ?case by simp
next
  case (Cons a g)
  obtain var productions where a: "a = (var, productions)" by (cases a)
  show ?case
    using Cons.IH[of "up(var := set_add (up var) var)"] a
    by (auto simp: set_add_idem)
qed

lemma unit_pairs_init_eq:
  "unit_pairs_init g v = (if v \<in> fst ` set g then [v] else [])"
  unfolding unit_pairs_init_def unit_pairs_init_fold by (simp add: set_add_def)

text \<open>Every set holds variables of the grammar only, and every variable of the grammar
  is in its own set.\<close>

definition pairs_ok :: "grammar_rules \<Rightarrow> (symbol \<Rightarrow> symbol list) \<Rightarrow> bool" where
  "pairs_ok g up \<longleftrightarrow>
     (\<forall>v. set (up v) \<subseteq> fst ` set g) \<and> (\<forall>v \<in> fst ` set g. v \<in> set (up v))"

lemma keys_bounded_add:
  assumes "\<forall>v. set (fst st v) \<subseteq> fst ` set g" "C \<in> fst ` set g"
  shows "\<forall>v. set (fst (unit_pairs_add var C st) v) \<subseteq> fst ` set g"
  using assms by (cases st) (auto simp: unit_pairs_add_def set_add_def)

lemma keys_bounded_prod:
  assumes "\<forall>v. set (fst st v) \<subseteq> fst ` set g"
  shows "\<forall>v. set (fst (unit_pairs_prod so g var prd st) v) \<subseteq> fst ` set g"
proof (cases "length prd = 1 \<and> dict_in (prd ! 0) g")
  case True
  have "\<forall>v. set (fst (fold (unit_pairs_add var) (visit so (fst st (prd ! 0))) st) v) \<subseteq> fst ` set g"
  proof (rule fold_invariant[where I = "\<lambda>s. \<forall>v. set (fst s v) \<subseteq> fst ` set g", OF assms])
    fix x :: symbol and s :: "(symbol \<Rightarrow> symbol list) \<times> bool"
    assume "x \<in> set (visit so (fst st (prd ! 0)))" "\<forall>v. set (fst s v) \<subseteq> fst ` set g"
    moreover from this assms have "x \<in> fst ` set g" by auto
    ultimately show "\<forall>v. set (fst (unit_pairs_add var x s) v) \<subseteq> fst ` set g"
      by (intro keys_bounded_add)
  qed
  then show ?thesis using True by (simp add: unit_pairs_prod_def)
next
  case False
  then show ?thesis using assms by (auto simp: unit_pairs_prod_def)
qed

lemma keys_bounded_pass:
  assumes "\<forall>v. set (up v) \<subseteq> fst ` set g"
  shows "\<forall>v. set (fst (unit_pairs_pass so g up) v) \<subseteq> fst ` set g"
proof -
  have "\<forall>v. set (fst (fold (\<lambda>(var, productions) st. fold (unit_pairs_prod so g var) productions st)
       g (up, False)) v) \<subseteq> fst ` set g"
  proof (rule fold_invariant[where I = "\<lambda>s. \<forall>v. set (fst s v) \<subseteq> fst ` set g"])
    show "\<forall>v. set (fst (up, False) v) \<subseteq> fst ` set g" using assms by simp
  next
    fix x :: "symbol \<times> production list" and s :: "(symbol \<Rightarrow> symbol list) \<times> bool"
    assume s: "\<forall>v. set (fst s v) \<subseteq> fst ` set g"
    obtain var productions where xx: "x = (var, productions)" by (cases x)
    have "\<forall>v. set (fst (fold (unit_pairs_prod so g var) productions s) v) \<subseteq> fst ` set g"
      using s
      by (rule fold_invariant[where I = "\<lambda>s. \<forall>v. set (fst s v) \<subseteq> fst ` set g"])
         (rule keys_bounded_prod)
    then show "\<forall>v. set (fst ((case x of (var, productions) \<Rightarrow>
        \<lambda>st. fold (unit_pairs_prod so g var) productions st) s) v) \<subseteq> fst ` set g"
      using xx by simp
  qed
  then show ?thesis by (simp add: unit_pairs_pass_def)
qed

lemma pairs_ok_pass:
  assumes "pairs_ok g up"
  shows "pairs_ok g (fst (unit_pairs_pass so g up))"
proof -
  have "\<forall>v. set (up v) \<subseteq> set (fst (unit_pairs_pass so g up) v)"
    using pass_inv_pass[of g up so] by (simp add: pass_inv_def)
  then show ?thesis
    using assms keys_bounded_pass[of up g so] unfolding pairs_ok_def by blast
qed

lemma unit_pairs_loop_invariant:
  "I up \<Longrightarrow> (\<And>up. I up \<Longrightarrow> I (fst (unit_pairs_pass so g up))) \<Longrightarrow> I (unit_pairs_loop so g up)"
proof (induction so g up rule: unit_pairs_loop.induct)
  case (1 so g up)
  obtain up' changed where p: "unit_pairs_pass so g up = (up', changed)"
    by (cases "unit_pairs_pass so g up")
  have up': "I up'" using "1.prems"(2)[OF "1.prems"(1)] p by simp
  show ?case
  proof (cases changed)
    case True
    have "I (unit_pairs_loop so g up')"
      using "1.IH"[OF p[symmetric] True up'] "1.prems"(2) by blast
    then show ?thesis using p True by (simp add: unit_pairs_loop.simps[of so g up])
  next
    case False
    then show ?thesis using p up' by (simp add: unit_pairs_loop.simps[of so g up])
  qed
qed

lemma pairs_ok_loop: "pairs_ok g (unit_pairs_loop so g (unit_pairs_init g))"
proof (rule unit_pairs_loop_invariant[where I = "pairs_ok g"])
  show "pairs_ok g (unit_pairs_init g)"
    by (auto simp: pairs_ok_def unit_pairs_init_eq)
qed (rule pairs_ok_pass)

subsection \<open>The only error is IndexError, at an empty production\<close>

lemma foldM_error:
  "foldM f xs s = Inl e \<Longrightarrow> \<exists>x \<in> set xs. \<exists>s'. f x s' = Inl e"
proof (induction xs arbitrary: s)
  case Nil
  then show ?case by simp
next
  case (Cons x xs)
  then show ?case by (cases "f x s") auto
qed

lemma foldM_fails:
  "x \<in> set xs \<Longrightarrow> (\<And>s. \<exists>e. f x s = Inl e) \<Longrightarrow> \<exists>e. foldM f xs s = Inl e"
proof (induction xs arbitrary: s)
  case Nil
  then show ?case by simp
next
  case (Cons y ys)
  show ?case
  proof (cases "f y s")
    case (Inl e)
    then show ?thesis by simp
  next
    case (Inr s')
    have "x \<noteq> y" using Cons.prems(2)[of s] Inr by auto
    then have "x \<in> set ys" using Cons.prems(1) by simp
    from Cons.IH[OF this Cons.prems(2)] show ?thesis using Inr by simp
  qed
qed

lemma unit_build_prod_error:
  "unit_build_prod g var prd d = Inl e \<Longrightarrow> e = IndexError \<and> prd = []"
  by (auto simp: unit_build_prod_def split: if_splits)

lemma unit_build_pair_error:
  assumes "unit_build_pair g var B d = Inl e" "B \<in> fst ` set g"
  shows "e = IndexError \<and> has_empty_production g"
proof -
  from assms(2) obtain productions where m: "map_of g B = Some productions"
    by (cases "map_of g B") (auto simp: map_of_eq_None_iff)
  then have "foldM (unit_build_prod g var) productions d = Inl e"
    using assms(1) by (simp add: unit_build_pair_def)
  from foldM_error[OF this] obtain prd d' where
    "prd \<in> set productions" "unit_build_prod g var prd d' = Inl e"
    by blast
  then have "e = IndexError" "[] \<in> set productions"
    using unit_build_prod_error by blast+
  moreover have "(B, productions) \<in> set g" using m by (rule map_of_SomeD)
  ultimately show ?thesis unfolding has_empty_production_iff by blast
qed

lemma eliminate_unit_productions_error:
  assumes "eliminate_unit_productions so g = Inl e"
  shows "e = IndexError \<and> has_empty_production g"
proof -
  define up where "up = unit_pairs_loop so g (unit_pairs_init g)"
  have ok: "pairs_ok g up" unfolding up_def by (rule pairs_ok_loop)
  have "foldM (\<lambda>(var, productions) new_grammar.
               foldM (unit_build_pair g var) (visit so (up var)) new_grammar) g [] = Inl e"
    using assms by (simp add: eliminate_unit_productions_def up_def)
  from foldM_error[OF this] obtain var productions d where
    "foldM (unit_build_pair g var) (visit so (up var)) d = Inl e"
    by auto
  from foldM_error[OF this] obtain B d' where
    B: "B \<in> set (up var)" "unit_build_pair g var B d' = Inl e"
    by auto
  have "B \<in> fst ` set g" using ok B(1) by (auto simp: pairs_ok_def)
  then show ?thesis using unit_build_pair_error[OF B(2)] by simp
qed

lemma eliminate_unit_productions_empty:
  assumes "distinct (map fst g)" "has_empty_production g"
  shows "\<exists>e. eliminate_unit_productions so g = Inl e"
proof -
  define up where "up = unit_pairs_loop so g (unit_pairs_init g)"
  have ok: "pairs_ok g up" unfolding up_def by (rule pairs_ok_loop)
  obtain var productions where vp: "(var, productions) \<in> set g" "[] \<in> set productions"
    using assms(2) by (auto simp: has_empty_production_iff)
  have m: "map_of g var = Some productions"
    using assms(1) vp(1) by simp
  have prod: "\<And>d. \<exists>e. foldM (unit_build_prod g var) productions d = Inl e"
    by (rule foldM_fails[OF vp(2)]) (simp add: unit_build_prod_def)
  have pair: "\<And>d. \<exists>e. unit_build_pair g var var d = Inl e"
    using prod m by (simp add: unit_build_pair_def)
  have "var \<in> set (visit so (up var))"
    using ok vp(1) by (auto simp: pairs_ok_def in_keysI)
  then have var: "\<And>d. \<exists>e. foldM (unit_build_pair g var) (visit so (up var)) d = Inl e"
    using pair by (rule foldM_fails)
  have "\<exists>e. foldM (\<lambda>(var, productions) new_grammar.
               foldM (unit_build_pair g var) (visit so (up var)) new_grammar) g [] = Inl e"
    by (rule foldM_fails[OF vp(1)]) (use var in simp)
  then show ?thesis
    by (simp add: eliminate_unit_productions_def up_def)
qed

lemma run_passes_outcome:
  "run_passes so G = Inl IndexError \<and> has_empty_production (eliminate_start_symbol G) \<or>
   (\<exists>c. run_passes so G = Inr c) \<and> \<not> has_empty_production (eliminate_start_symbol G)"
proof (cases "has_empty_production (eliminate_start_symbol G)")
  case True
  let ?g2 = "eliminate_epsilon_productions (eliminate_start_symbol G)"
  have d: "distinct (map fst ?g2)"
    by (intro eliminate_epsilon_dictionary distinct_eliminate_start_symbol)
  have "has_empty_production ?g2"
    by (intro eliminate_epsilon_keeps_empty distinct_eliminate_start_symbol True)
  from eliminate_unit_productions_empty[OF d this]
  obtain e where e: "eliminate_unit_productions so ?g2 = Inl e" by blast
  then have "e = IndexError" using eliminate_unit_productions_error by blast
  then show ?thesis using e True by (simp add: run_passes_def)
next
  case False
  then have g2: "eliminate_epsilon_productions (eliminate_start_symbol G) = eliminate_start_symbol G"
    by (rule eliminate_epsilon_no_empty)
  have "\<exists>g3. eliminate_unit_productions so (eliminate_start_symbol G) = Inr g3"
    using eliminate_unit_productions_error[of so "eliminate_start_symbol G"] False
    by (cases "eliminate_unit_productions so (eliminate_start_symbol G)") auto
  then show ?thesis
    using False g2 by (auto simp: run_passes_def split: prod.splits)
qed

text \<open>
  C3 (as amended): \<open>convert\<close> never raises MalformedGrammarError and makes no check of the
  start symbol or of the non-terminals that the productions name. Whether or not they
  have entries, it returns a grammar when no production of the grammar (after start
  isolation) is empty, and raises IndexError when one is.
\<close>

theorem convert_raises_only_IndexError:
  "convert so G = Inl IndexError \<and> has_empty_production (eliminate_start_symbol G) \<or>
   (\<exists>R. convert so G = Inr R) \<and> \<not> has_empty_production (eliminate_start_symbol G)"
  using run_passes_outcome[of so G] by (auto simp: convert_def)

text \<open>
  C3 as stated fails: the start symbol \<open>S\<close> has no entry in the empty rules, and \<open>A\<close>,
  named by a production of \<open>S\<close>, has no entry in \<open>{'S': ['A b']}\<close>; \<open>convert\<close> returns a
  grammar for both.
\<close>

theorem convert_returns_for_undefined_symbols:
  "convert insertion_order \<lparr>start = ''S'', rules = []\<rparr>
     = Inr \<lparr>start = ''S0'', rules = [(''S0'', [[''S'']])]\<rparr> \<and>
   convert insertion_order \<lparr>start = ''S'', rules = [(''S'', [''A b''])]\<rparr>
     = Inr \<lparr>start = ''S0'', rules = [(''X1'', [[''b'']]), (''S0'', [[''A'', ''X1'']]),
                                    (''S'', [[''A'', ''X1'']])]\<rparr>"
  by (simp add: convert_eval Let_def)

section \<open>class CYKParser\<close>

text \<open>
  \<open>_build_reverse_grammar\<close>: a \<open>defaultdict(list)\<close> from \<open>tuple(prod)\<close> to the variables
  that have the production, in the order of the grammar. A key is in it exactly when
  something was appended for it.
\<close>

definition build_reverse_grammar :: "grammar_rules \<Rightarrow> (production \<Rightarrow> symbol list)" where
  "build_reverse_grammar g =
     fold (\<lambda>(var, productions) reverse.
             fold (\<lambda>prod reverse. reverse(prod := reverse prod @ [var])) productions reverse)
       g (\<lambda>_. [])"

text \<open>
  A back-pointer entry is \<open>(prod[0], None, None)\<close> on the diagonal and
  \<open>(B, C, k, i, i + k + 1)\<close> elsewhere.
\<close>

datatype bp_entry = Leaf symbol | Split symbol symbol nat nat nat

text \<open>\<open>table\<close> is a list of rows of sets, \<open>backpointer\<close> a list of rows of
  \<open>defaultdict(list)\<close>.\<close>

type_synonym table = "symbol list list list"
type_synonym backpointers = "(symbol \<Rightarrow> bp_entry list) list list"

definition cell :: "'a list list \<Rightarrow> nat \<Rightarrow> nat \<Rightarrow> 'a" where
  "cell t i j = t ! i ! j"

definition set_cell :: "'a list list \<Rightarrow> nat \<Rightarrow> nat \<Rightarrow> 'a \<Rightarrow> 'a list list" where
  "set_cell t i j v = t[i := (t ! i)[j := v]]"

text \<open>\<open>table[i][j].add(A)\<close> and \<open>backpointer[i][j][A].append(entry)\<close>\<close>

definition add_entry ::
  "nat \<Rightarrow> nat \<Rightarrow> symbol \<Rightarrow> bp_entry \<Rightarrow> table \<times> backpointers \<Rightarrow> table \<times> backpointers" where
  "add_entry i j A entry st =
     (case st of (table, backpointer) \<Rightarrow>
        (set_cell table i j (set_add (cell table i j) A),
         set_cell backpointer i j
           ((cell backpointer i j)(A := cell backpointer i j A @ [entry]))))"

text \<open>Step 1 of \<open>parse\<close>: the diagonal.\<close>

definition fill_word ::
  "grammar_rules \<Rightarrow> string list \<Rightarrow> nat \<Rightarrow> table \<times> backpointers \<Rightarrow> table \<times> backpointers" where
  "fill_word g words i st =
     fold (\<lambda>(var, productions) st.
             fold (\<lambda>prod st.
                     if length prod = 1 \<and> prod ! 0 = words ! i
                     then add_entry i 0 var (Leaf (prod ! 0)) st
                     else st)
               productions st)
       g st"

definition fill_diagonal ::
  "grammar_rules \<Rightarrow> string list \<Rightarrow> table \<times> backpointers \<Rightarrow> table \<times> backpointers" where
  "fill_diagonal g words st = fold (fill_word g words) [0..<length words] st"

text \<open>
  Step 2. The body of \<open>for k in range(length - 1)\<close>: \<open>left_vars\<close> and \<open>right_vars\<close> are
  cells other than \<open>table[i][j]\<close>, so the loops over them see them as they are when the
  body starts.
\<close>

definition fill_pair ::
  "(production \<Rightarrow> symbol list) \<Rightarrow> nat \<Rightarrow> nat \<Rightarrow> nat \<Rightarrow> symbol \<Rightarrow> symbol \<Rightarrow>
   table \<times> backpointers \<Rightarrow> table \<times> backpointers" where
  "fill_pair reverse i j k B C st =
     (let key = [B, C] in
      if reverse key \<noteq> []
      then fold (\<lambda>A st. add_entry i j A (Split B C k i (i + k + 1)) st) (reverse key) st
      else st)"

definition fill_split ::
  "symbol iteration_order \<Rightarrow> (production \<Rightarrow> symbol list) \<Rightarrow> nat \<Rightarrow> nat \<Rightarrow> nat \<Rightarrow>
   table \<times> backpointers \<Rightarrow> table \<times> backpointers" where
  "fill_split so reverse i j k st =
     (let left_vars = cell (fst st) i k;
          right_vars = cell (fst st) (i + k + 1) (j - k - 1)
      in fold (\<lambda>B st. fold (\<lambda>C st. fill_pair reverse i j k B C st) (visit so right_vars) st)
           (visit so left_vars) st)"

text \<open>The body of \<open>for length in range(2, n + 1)\<close>.\<close>

definition fill_length ::
  "symbol iteration_order \<Rightarrow> (production \<Rightarrow> symbol list) \<Rightarrow> nat \<Rightarrow> nat \<Rightarrow>
   table \<times> backpointers \<Rightarrow> table \<times> backpointers" where
  "fill_length so reverse n len st =
     fold (\<lambda>i st. let j = len - 1 in fold (\<lambda>k st. fill_split so reverse i j k st) [0..<len - 1] st)
       [0..<n - len + 1] st"

definition fill_table ::
  "symbol iteration_order \<Rightarrow> (production \<Rightarrow> symbol list) \<Rightarrow> nat \<Rightarrow>
   table \<times> backpointers \<Rightarrow> table \<times> backpointers" where
  "fill_table so reverse n st = fold (fill_length so reverse n) [2..<n + 1] st"

text \<open>The table and the back-pointers when the two steps are done.\<close>

definition cyk ::
  "symbol iteration_order \<Rightarrow> grammar_rules \<Rightarrow> string list \<Rightarrow> table \<times> backpointers" where
  "cyk so g words =
     (let n = length words in
      fill_table so (build_reverse_grammar g) n
        (fill_diagonal g words (replicate n (replicate n []), replicate n (replicate n (\<lambda>_. [])))))"

text \<open>
  \<open>parse\<close>, for the parser made from \<open>cnf_grammar\<close>. The result is \<open>accepts\<close> and the parse
  data; the elapsed time, a reading of the clock, is left out. With no word the table is
  the empty list and \<open>table[0]\<close> raises IndexError.
\<close>

type_synonym parse_data = "table \<times> backpointers \<times> string list"

definition parse ::
  "symbol iteration_order \<Rightarrow> production grammar_dict \<Rightarrow> string \<Rightarrow>
   error + bool \<times> parse_data option" where
  "parse so cnf_grammar sentence =
     (let words = str_split (str_lower sentence);
          n = length words
      in case cyk so (rules cnf_grammar) words of (table, backpointer) \<Rightarrow>
           if n = 0 then Inl IndexError
           else (let accepts = start cnf_grammar \<in> set (cell table 0 (n - 1))
                 in Inr (accepts, if accepts then Some (table, backpointer, words) else None)))"

text \<open>
  The parse tree: \<open>{'symbol': var, 'terminal': t}\<close> or
  \<open>{'symbol': var, 'left': l, 'right': r}\<close>, where \<open>l\<close> and \<open>r\<close> are what \<open>build_tree\<close>
  returned, a tree or \<open>None\<close>.
\<close>

datatype tree = Terminal symbol symbol | Node symbol "tree option" "tree option"

text \<open>\<open>xs[i]\<close> for a Python integer: a negative index counts from the end.\<close>

definition py_nth :: "'a list \<Rightarrow> int \<Rightarrow> error + 'a" where
  "py_nth xs i =
     (let n = int (length xs); k = (if i < 0 then i + n else i)
      in if 0 \<le> k \<and> k < n then Inr (xs ! nat k) else Inl IndexError)"

text \<open>\<open>entry[0]\<close>\<close>

fun entry_first :: "bp_entry \<Rightarrow> symbol" where
  "entry_first (Leaf t) = t"
| "entry_first (Split B C k left_start right_start) = B"

text \<open>
  \<open>build_tree\<close>, the recursive function inside \<open>build_parse_tree\<close>. Its first argument is
  the depth of recursion that the interpreter still allows: beyond it Python raises
  RecursionError. Unpacking a three-element entry into five names raises ValueError.
\<close>

fun build_tree ::
  "nat \<Rightarrow> backpointers \<Rightarrow> symbol \<Rightarrow> int \<Rightarrow> int \<Rightarrow> error + tree option" where
  "build_tree 0 backpointer var i j = Inl RecursionError"
| "build_tree (Suc depth) backpointer var i j =
     (case py_nth backpointer i of
        Inl e \<Rightarrow> Inl e
      | Inr row \<Rightarrow>
          (case py_nth row j of
             Inl e \<Rightarrow> Inl e
           | Inr entries_of \<Rightarrow>
               (if j = 0 then
                  (case entries_of var of
                     [] \<Rightarrow> Inr None
                   | entry # _ \<Rightarrow> Inr (Some (Terminal var (entry_first entry))))
                else
                  (case entries_of var of
                     [] \<Rightarrow> Inr None
                   | Leaf t # _ \<Rightarrow> Inl ValueError
                   | Split B C k left_start right_start # _ \<Rightarrow>
                       (case build_tree depth backpointer B (int left_start) (int k) of
                          Inl e \<Rightarrow> Inl e
                        | Inr left \<Rightarrow>
                            (case build_tree depth backpointer C (int right_start)
                                    (j - int k - 1) of
                               Inl e \<Rightarrow> Inl e
                             | Inr right \<Rightarrow> Inr (Some (Node var left right))))))))"

definition build_parse_tree ::
  "nat \<Rightarrow> production grammar_dict \<Rightarrow> parse_data option \<Rightarrow> error + tree option" where
  "build_parse_tree depth cnf_grammar parse_data =
     (case parse_data of
        None \<Rightarrow> Inr None
      | Some (table, backpointer, words) \<Rightarrow>
          build_tree depth backpointer (start cnf_grammar) 0 (int (length words) - 1))"

text \<open>The terminals at the leaves of a tree, from left to right, and the symbol at its
  root.\<close>

fun leaves :: "tree \<Rightarrow> string list" where
  "leaves (Terminal var t) = [t]"
| "leaves (Node var left right) =
     (case left of None \<Rightarrow> [] | Some l \<Rightarrow> leaves l) @
     (case right of None \<Rightarrow> [] | Some r \<Rightarrow> leaves r)"

fun root :: "tree \<Rightarrow> symbol" where
  "root (Terminal var t) = var"
| "root (Node var left right) = var"

text \<open>Unfolding the parser on a concrete sentence.\<close>

lemmas parse_eval = parse_def cyk_def str_split_def str_lower_def lower_char_def
  isspace_def whitespace_def uppercase_def lowercase_def
  build_reverse_grammar_def fill_diagonal_def fill_word_def fill_table_def fill_length_def
  fill_split_def fill_pair_def add_entry_def cell_def set_cell_def set_add_def

section \<open>The table\<close>

text \<open>A table has \<open>n\<close> rows of \<open>n\<close> cells.\<close>

definition shape :: "nat \<Rightarrow> 'a list list \<Rightarrow> bool" where
  "shape n t \<longleftrightarrow> length t = n \<and> (\<forall>row \<in> set t. length row = n)"

lemma shape_replicate: "shape n (replicate n (replicate n x))"
  by (simp add: shape_def)

lemma shape_set_cell: "shape n t \<Longrightarrow> shape n (set_cell t i j v)"
proof -
  assume s: "shape n t"
  have "\<And>row. row \<in> set (t[i := (t ! i)[j := v]]) \<Longrightarrow> length row = n"
  proof -
    fix row
    assume "row \<in> set (t[i := (t ! i)[j := v]])"
    then have "row \<in> insert ((t ! i)[j := v]) (set t)"
      using set_update_subset_insert by fastforce
    moreover have "i < length t \<Longrightarrow> length (t ! i) = n"
      using s by (simp add: shape_def)
    moreover have "\<not> i < length t \<Longrightarrow> t[i := (t ! i)[j := v]] = t"
      by (simp add: list_update_beyond)
    ultimately show "length row = n"
      using s \<open>row \<in> set (t[i := (t ! i)[j := v]])\<close> by (cases "i < length t") (auto simp: shape_def)
  qed
  then show ?thesis using s by (simp add: shape_def set_cell_def)
qed

lemma cell_set_cell:
  assumes "shape n t" "i < n" "j < n"
  shows "cell (set_cell t i j v) i' j' = (if i' = i \<and> j' = j then v else cell t i' j')"
proof -
  have len: "length t = n" "length (t ! i) = n"
    using assms by (auto simp: shape_def)
  show ?thesis
    using assms(2,3) len by (auto simp: cell_def set_cell_def nth_list_update)
qed

lemma shape_add_entry:
  assumes "shape n (fst st)" "shape n (snd st)"
  shows "shape n (fst (add_entry i j A e st)) \<and> shape n (snd (add_entry i j A e st))"
  using assms by (cases st) (simp add: add_entry_def shape_set_cell)

lemma table_add_entry:
  assumes "shape n (fst st)" "i < n" "j < n"
  shows "cell (fst (add_entry i j A e st)) i' j' =
     (if i' = i \<and> j' = j then set_add (cell (fst st) i j) A else cell (fst st) i' j')"
  using assms by (cases st) (simp add: add_entry_def cell_set_cell)

lemma backpointer_add_entry:
  assumes "shape n (snd st)" "i < n" "j < n"
  shows "cell (snd (add_entry i j A e st)) i' j' =
     (if i' = i \<and> j' = j then (cell (snd st) i j)(A := cell (snd st) i j A @ [e])
      else cell (snd st) i' j')"
  using assms by (cases st) (simp add: add_entry_def cell_set_cell)

lemma set_set_add [simp]: "set (set_add xs x) = insert x (set xs)"
  by (auto simp: set_add_def)

lemma one_symbol_production: "length prd = 1 \<and> prd ! 0 = w \<longleftrightarrow> prd = [w]"
  by (cases prd) auto

subsection \<open>The diagonal\<close>

lemma fill_word_productions:
  assumes "shape n (fst st)" "shape n (snd st)" "i < n"
  shows "shape n (fst (fold (\<lambda>prod st.
                     if length prod = 1 \<and> prod ! 0 = w
                     then add_entry i 0 var (Leaf (prod ! 0)) st
                     else st) productions st)) \<and>
         shape n (snd (fold (\<lambda>prod st.
                     if length prod = 1 \<and> prod ! 0 = w
                     then add_entry i 0 var (Leaf (prod ! 0)) st
                     else st) productions st)) \<and>
         set (cell (fst (fold (\<lambda>prod st.
                     if length prod = 1 \<and> prod ! 0 = w
                     then add_entry i 0 var (Leaf (prod ! 0)) st
                     else st) productions st)) i 0)
           = set (cell (fst st) i 0) \<union> (if [w] \<in> set productions then {var} else {})"
  using assms
proof (induction productions arbitrary: st)
  case Nil
  then show ?case by simp
next
  case (Cons p ps)
  show ?case
  proof (cases "p = [w]")
    case True
    let ?st = "add_entry i 0 var (Leaf w) st"
    have sh: "shape n (fst ?st)" "shape n (snd ?st)"
      using shape_add_entry[OF Cons.prems(1,2)] by auto
    have c: "set (cell (fst ?st) i 0) = insert var (set (cell (fst st) i 0))"
      using table_add_entry[OF Cons.prems(1,3), of 0] Cons.prems(3) by simp
    show ?thesis
      using Cons.IH[OF sh Cons.prems(3)] c True by auto
  next
    case False
    then have "\<not> (length p = 1 \<and> p ! 0 = w)"
      using one_symbol_production[of p w] by blast
    then show ?thesis
      using Cons.IH[OF Cons.prems] False by auto
  qed
qed

lemma fill_word_cell:
  assumes "shape n (fst st)" "shape n (snd st)" "i < n"
  shows "shape n (fst (fill_word g words i st)) \<and> shape n (snd (fill_word g words i st)) \<and>
         set (cell (fst (fill_word g words i st)) i 0)
           = set (cell (fst st) i 0) \<union>
             {var. \<exists>productions. (var, productions) \<in> set g \<and> [words ! i] \<in> set productions}"
  unfolding fill_word_def using assms
proof (induction g arbitrary: st)
  case Nil
  then show ?case by simp
next
  case (Cons a g)
  obtain var productions where a: "a = (var, productions)" by (cases a)
  let ?st = "fold (\<lambda>prod st.
                     if length prod = 1 \<and> prod ! 0 = words ! i
                     then add_entry i 0 var (Leaf (prod ! 0)) st
                     else st) productions st"
  note step = fill_word_productions[OF Cons.prems, of "words ! i" var productions]
  have sh: "shape n (fst ?st)" "shape n (snd ?st)" using step by auto
  show ?case
    using Cons.IH[OF sh Cons.prems(3)] step a by auto
qed

section \<open>The empty sentence and the sentence of one word\<close>

text \<open>
  C2: with no token, \<open>parse\<close> does not return a rejection: it raises IndexError, for every
  grammar and every iteration order (the empty sentence, and a sentence of three spaces).
\<close>

theorem parse_no_token_raises:
  "parse so cnf_grammar '''' = Inl IndexError \<and> parse so cnf_grammar ''   '' = Inl IndexError"
  by (simp add: parse_def str_split_def str_lower_def lower_char_def isspace_def whitespace_def
      uppercase_def lowercase_def Let_def split: prod.splits)

lemma cyk_one_word: "cyk so g [w] = fill_word g [w] 0 ([[[]]], [[\<lambda>_. []]])"
  by (simp add: cyk_def fill_table_def fill_diagonal_def)

text \<open>
  C4 (as amended): for a sentence of one token, \<open>parse\<close> accepts if and only if the start
  symbol of the grammar has a production of length 1 that yields the token.
\<close>

theorem parse_one_token:
  assumes "str_split (str_lower sentence) = [w]"
  shows "\<exists>parse_data. parse so cnf_grammar sentence =
     Inr ((\<exists>productions. (start cnf_grammar, productions) \<in> set (rules cnf_grammar) \<and>
                          [w] \<in> set productions), parse_data)"
proof -
  have sh: "shape 1 (fst ([[[]]] :: table, [[\<lambda>_. []]] :: backpointers))"
      "shape 1 (snd ([[[]]] :: table, [[\<lambda>_. []]] :: backpointers))"
    by (simp_all add: shape_def)
  have "set (cell (fst (fill_word (rules cnf_grammar) [w] 0 ([[[]]], [[\<lambda>_. []]]))) 0 0)
      = {var. \<exists>productions. (var, productions) \<in> set (rules cnf_grammar) \<and>
                              [w] \<in> set productions}"
    using fill_word_cell[OF sh, of 0 "rules cnf_grammar" "[w]"] by (simp add: cell_def)
  then show ?thesis
    using assms by (auto simp: parse_def cyk_one_word Let_def split: prod.splits)
qed

theorem parse_one_token_witness:
  "str_split (str_lower ''Eats'') = [''eats''] \<and>
   (\<exists>parse_data. parse insertion_order
      \<lparr>start = ''S0'', rules = [(''S0'', [[''A'', ''B''], [''eats'']]), (''A'', [[''a'']]),
                               (''B'', [[''b'']])]\<rparr> ''Eats'' = Inr (True, parse_data))"
proof -
  have t: "str_split (str_lower ''Eats'') = [''eats'']"
    by (simp add: str_split_def str_lower_def lower_char_def isspace_def whitespace_def
        uppercase_def lowercase_def)
  show ?thesis
    using parse_one_token[OF t, of insertion_order
      "\<lparr>start = ''S0'', rules = [(''S0'', [[''A'', ''B''], [''eats'']]), (''A'', [[''a'']]),
                               (''B'', [[''b'']])]\<rparr>"] t
    by simp
qed

text \<open>
  C4 as stated fails: in the CNF grammar \<open>S0 -> A B\<close>, \<open>A -> a\<close>, \<open>B -> b\<close> the non-terminal
  \<open>A\<close> yields the token \<open>a\<close> directly, and \<open>parse\<close> rejects the sentence \<open>a\<close>.
\<close>

theorem parse_one_token_rejected:
  "str_split (str_lower ''a'') = [''a''] \<and>
   (''A'', [[''a'']]) \<in> set (rules \<lparr>start = ''S0'',
        rules = [(''S0'', [[''A'', ''B'']]), (''A'', [[''a'']]), (''B'', [[''b'']])]\<rparr>) \<and>
   parse insertion_order
     \<lparr>start = ''S0'', rules = [(''S0'', [[''A'', ''B'']]), (''A'', [[''a'']]), (''B'', [[''b'']])]\<rparr>
     ''a'' = Inr (False, None)"
  by (simp add: parse_eval Let_def)

section \<open>Fresh variables that are not fresh\<close>

text \<open>
  What \<open>main\<close> does with a grammar and a sentence: convert the grammar, make the parser
  of the result, parse the sentence; the value is the flag \<open>accepts\<close>.
\<close>

definition accepted ::
  "symbol iteration_order \<Rightarrow> string grammar_dict \<Rightarrow> string \<Rightarrow> error + bool" where
  "accepted so G sentence =
     (case convert so G of
        Inl e \<Rightarrow> Inl e
      | Inr cnf_grammar \<Rightarrow>
          (case parse so cnf_grammar sentence of
             Inl e \<Rightarrow> Inl e
           | Inr (accepts, parse_data) \<Rightarrow> Inr accepts))"

text \<open>
  C9: the first variable that \<open>get_new_variable\<close> returns is \<open>X1\<close>, whatever the grammar
  holds. With the rules \<open>{'S': ['a X1'], 'X1': ['b']}\<close> it is given to the terminal \<open>a\<close>
  although \<open>X1\<close> is a non-terminal of the input, and the converted grammar has
  \<open>X1 -> a | b\<close>.
\<close>

theorem get_new_variable_collides:
  "fst (get_new_variable 0) = ''X1'' \<and>
   dict_in ''X1'' (rules \<lparr>start = ''S'', rules = [(''S'', [''a X1'']), (''X1'', [''b''])]\<rparr>) \<and>
   convert insertion_order \<lparr>start = ''S'', rules = [(''S'', [''a X1'']), (''X1'', [''b''])]\<rparr>
     = Inr \<lparr>start = ''S0'',
            rules = [(''X1'', [[''a''], [''b'']]), (''S0'', [[''X1'', ''X1'']]),
                     (''S'', [[''X1'', ''X1'']])]\<rparr>"
  by (simp add: convert_eval Let_def)

text \<open>
  C5: the two grammars below differ only in the order of the two productions of \<open>S\<close>.
  The terminal met first is given \<open>X1\<close>, the name of a non-terminal of the input, so the
  first grammar is converted to \<open>X1 -> a | c\<close>, \<open>X2 -> b\<close> and the second to
  \<open>X1 -> b | c\<close>, \<open>X2 -> a\<close>: the sentence \<open>a a\<close> is accepted for the first and rejected
  for the second.
\<close>

theorem accepted_depends_on_production_order:
  "accepted insertion_order
     \<lparr>start = ''S'', rules = [(''S'', [''a X1'', ''b X1'']), (''X1'', [''c''])]\<rparr> ''a a''
     = Inr True \<and>
   accepted insertion_order
     \<lparr>start = ''S'', rules = [(''S'', [''b X1'', ''a X1'']), (''X1'', [''c''])]\<rparr> ''a a''
     = Inr False"
proof -
  have c1: "convert insertion_order
      \<lparr>start = ''S'', rules = [(''S'', [''a X1'', ''b X1'']), (''X1'', [''c''])]\<rparr>
    = Inr \<lparr>start = ''S0'',
           rules = [(''X1'', [[''a''], [''c'']]), (''S0'', [[''X1'', ''X1''], [''X2'', ''X1'']]),
                    (''X2'', [[''b'']]), (''S'', [[''X1'', ''X1''], [''X2'', ''X1'']])]\<rparr>"
    by (simp add: convert_eval Let_def)
  have c2: "convert insertion_order
      \<lparr>start = ''S'', rules = [(''S'', [''b X1'', ''a X1'']), (''X1'', [''c''])]\<rparr>
    = Inr \<lparr>start = ''S0'',
           rules = [(''X1'', [[''b''], [''c'']]), (''S0'', [[''X1'', ''X1''], [''X2'', ''X1'']]),
                    (''X2'', [[''a'']]), (''S'', [[''X1'', ''X1''], [''X2'', ''X1'']])]\<rparr>"
    by (simp add: convert_eval Let_def)
  have w: "str_split (str_lower ''a a'') = [''a'', ''a'']"
    by (simp add: str_split_def str_lower_def lower_char_def isspace_def whitespace_def
        uppercase_def lowercase_def)
  have p1: "\<exists>pd. parse insertion_order \<lparr>start = ''S0'',
           rules = [(''X1'', [[''a''], [''c'']]), (''S0'', [[''X1'', ''X1''], [''X2'', ''X1'']]),
                    (''X2'', [[''b'']]), (''S'', [[''X1'', ''X1''], [''X2'', ''X1'']])]\<rparr> ''a a''
      = Inr (True, pd)"
    unfolding parse_def w by (simp add: parse_eval Let_def)
  have p2: "parse insertion_order \<lparr>start = ''S0'',
           rules = [(''X1'', [[''b''], [''c'']]), (''S0'', [[''X1'', ''X1''], [''X2'', ''X1'']]),
                    (''X2'', [[''a'']]), (''S'', [[''X1'', ''X1''], [''X2'', ''X1'']])]\<rparr> ''a a''
      = Inr (False, None)"
    unfolding parse_def w by (simp add: parse_eval Let_def)
  show ?thesis
    unfolding accepted_def c1 c2 using p1 p2 by auto
qed

section \<open>What the filled table and its back-pointers hold\<close>

text \<open>
  A justified entry of \<open>backpointer[i][j]\<close>: on the diagonal the word at position \<open>i\<close>;
  elsewhere a split \<open>k < j\<close> of the span, with the positions of the two halves, whose
  symbols are in the cells of the halves.
\<close>

definition entry_ok :: "string list \<Rightarrow> table \<Rightarrow> nat \<Rightarrow> nat \<Rightarrow> bp_entry \<Rightarrow> bool" where
  "entry_ok words t i j entry \<longleftrightarrow>
     (case entry of
        Leaf w \<Rightarrow> j = 0 \<and> w = words ! i
      | Split B C k left_start right_start \<Rightarrow>
          k < j \<and> left_start = i \<and> right_start = i + k + 1 \<and>
          B \<in> set (cell t i k) \<and> C \<in> set (cell t (i + k + 1) (j - k - 1)))"

text \<open>
  The invariant of the two steps of \<open>parse\<close>: every symbol of a cell has an entry, and
  every entry is justified and sits in a cell of a span inside the sentence.
\<close>

definition cyk_inv :: "nat \<Rightarrow> string list \<Rightarrow> table \<times> backpointers \<Rightarrow> bool" where
  "cyk_inv n words st \<longleftrightarrow>
     shape n (fst st) \<and> shape n (snd st) \<and>
     (\<forall>i j A. i < n \<and> j < n \<longrightarrow>
        (A \<in> set (cell (fst st) i j) \<longrightarrow> cell (snd st) i j A \<noteq> []) \<and>
        (\<forall>entry \<in> set (cell (snd st) i j A). i + j < n \<and> entry_ok words (fst st) i j entry))"

text \<open>The cells of the table only grow.\<close>

definition grows :: "table \<times> backpointers \<Rightarrow> table \<times> backpointers \<Rightarrow> bool" where
  "grows st st' \<longleftrightarrow> (\<forall>i j. set (cell (fst st) i j) \<subseteq> set (cell (fst st') i j))"

lemma grows_refl: "grows st st"
  by (simp add: grows_def)

lemma grows_trans: "grows st st' \<Longrightarrow> grows st' st'' \<Longrightarrow> grows st st''"
  unfolding grows_def by blast

lemma entry_ok_grows:
  "entry_ok words (fst st) i j e \<Longrightarrow> grows st st' \<Longrightarrow> entry_ok words (fst st') i j e"
  unfolding entry_ok_def grows_def by (cases e) auto

lemma grows_add_entry:
  assumes "shape n (fst st)" "i < n" "j < n"
  shows "grows st (add_entry i j A e st)"
  unfolding grows_def using table_add_entry[OF assms] by auto

lemma cyk_inv_add_entry:
  assumes inv: "cyk_inv n words st" and i: "i < n" and j: "j < n" and ij: "i + j < n"
    and e: "entry_ok words (fst st) i j e"
  shows "cyk_inv n words (add_entry i j A e st)"
proof -
  let ?st = "add_entry i j A e st"
  have sh: "shape n (fst st)" "shape n (snd st)" using inv by (auto simp: cyk_inv_def)
  have sh': "shape n (fst ?st)" "shape n (snd ?st)"
    using shape_add_entry[OF sh] by auto
  have g: "grows st ?st" by (rule grows_add_entry[OF sh(1) i j])
  have "(B \<in> set (cell (fst ?st) i' j') \<longrightarrow> cell (snd ?st) i' j' B \<noteq> []) \<and>
        (\<forall>entry \<in> set (cell (snd ?st) i' j' B).
           i' + j' < n \<and> entry_ok words (fst ?st) i' j' entry)"
    if r: "i' < n" "j' < n" for i' j' B
  proof -
    have old: "(B \<in> set (cell (fst st) i' j') \<longrightarrow> cell (snd st) i' j' B \<noteq> [])"
      "\<And>entry. entry \<in> set (cell (snd st) i' j' B) \<Longrightarrow>
         i' + j' < n \<and> entry_ok words (fst st) i' j' entry"
      using inv r unfolding cyk_inv_def by blast+
    show ?thesis
    proof (cases "i' = i \<and> j' = j")
      case True
      have t: "cell (fst ?st) i' j' = set_add (cell (fst st) i j) A"
        using table_add_entry[OF sh(1) i j] True by simp
      have b: "cell (snd ?st) i' j' = (cell (snd st) i j)(A := cell (snd st) i j A @ [e])"
        using backpointer_add_entry[OF sh(2) i j] True by simp
      have "entry_ok words (fst ?st) i j e" using e g by (rule entry_ok_grows)
      then show ?thesis
        using old True ij entry_ok_grows[OF _ g] unfolding t b by auto
    next
      case False
      have t: "cell (fst ?st) i' j' = cell (fst st) i' j'"
        using table_add_entry[OF sh(1) i j] False by auto
      have b: "cell (snd ?st) i' j' = cell (snd st) i' j'"
        using backpointer_add_entry[OF sh(2) i j] False by auto
      show ?thesis
        using old entry_ok_grows[OF _ g] unfolding t b by auto
    qed
  qed
  then show ?thesis
    using sh' unfolding cyk_inv_def by blast
qed

text \<open>One step keeps the invariant and lets the table grow.\<close>

definition keeps :: "nat \<Rightarrow> string list \<Rightarrow> table \<times> backpointers \<Rightarrow> table \<times> backpointers \<Rightarrow> bool" where
  "keeps n words st st' \<longleftrightarrow> cyk_inv n words st' \<and> grows st st'"

lemma keeps_refl: "cyk_inv n words st \<Longrightarrow> keeps n words st st"
  by (simp add: keeps_def grows_refl)

lemma keeps_fold:
  assumes "cyk_inv n words st"
    and "\<And>x s. x \<in> set xs \<Longrightarrow> keeps n words st s \<Longrightarrow> keeps n words s (f x s)"
  shows "keeps n words st (fold f xs st)"
proof (rule fold_invariant[where I = "keeps n words st"])
  show "keeps n words st st" using assms(1) by (rule keeps_refl)
next
  fix x s
  assume "x \<in> set xs" "keeps n words st s"
  then have "keeps n words s (f x s)" "grows st s"
    using assms(2) by (auto simp: keeps_def)
  then show "keeps n words st (f x s)"
    unfolding keeps_def using grows_trans by blast
qed

lemma keeps_add_entry:
  assumes "cyk_inv n words st" "i < n" "j < n" "i + j < n" "entry_ok words (fst st) i j e"
  shows "keeps n words st (add_entry i j A e st)"
  unfolding keeps_def
  using cyk_inv_add_entry[OF assms] grows_add_entry[OF _ assms(2,3)] assms(1)
  by (simp add: cyk_inv_def)

subsection \<open>Step 1\<close>

lemma keeps_fill_word:
  assumes "cyk_inv n words st" "i < n"
  shows "keeps n words st (fill_word g words i st)"
  unfolding fill_word_def
proof (rule keeps_fold[OF assms(1)])
  fix x :: "symbol \<times> production list" and s
  assume s: "keeps n words st s"
  obtain var productions where x: "x = (var, productions)" by (cases x)
  have inv: "cyk_inv n words s" using s by (simp add: keeps_def)
  have "keeps n words s (fold (\<lambda>prod st.
                     if length prod = 1 \<and> prod ! 0 = words ! i
                     then add_entry i 0 var (Leaf (prod ! 0)) st
                     else st) productions s)"
  proof (rule keeps_fold[OF inv])
    fix p :: production and s'
    assume s': "keeps n words s s'"
    then have inv': "cyk_inv n words s'" by (simp add: keeps_def)
    show "keeps n words s' (if length p = 1 \<and> p ! 0 = words ! i
                     then add_entry i 0 var (Leaf (p ! 0)) s' else s')"
    proof (cases "length p = 1 \<and> p ! 0 = words ! i")
      case True
      have "entry_ok words (fst s') i 0 (Leaf (p ! 0))"
        using True by (simp add: entry_ok_def)
      then have "keeps n words s' (add_entry i 0 var (Leaf (p ! 0)) s')"
        using assms(2) by (intro keeps_add_entry[OF inv']) auto
      then show ?thesis using True by simp
    next
      case False
      then show ?thesis using keeps_refl[OF inv'] by auto
    qed
  qed
  then show "keeps n words s ((case x of (var, productions) \<Rightarrow> \<lambda>st.
             fold (\<lambda>prod st.
                     if length prod = 1 \<and> prod ! 0 = words ! i
                     then add_entry i 0 var (Leaf (prod ! 0)) st
                     else st)
               productions st) s)"
    using x by simp
qed

lemma keeps_fill_diagonal:
  assumes "cyk_inv (length words) words st"
  shows "keeps (length words) words st (fill_diagonal g words st)"
  unfolding fill_diagonal_def
proof (rule keeps_fold[OF assms])
  fix i s
  assume "i \<in> set [0..<length words]" "keeps (length words) words st s"
  then show "keeps (length words) words s (fill_word g words i s)"
    by (intro keeps_fill_word) (auto simp: keeps_def)
qed

subsection \<open>Step 2\<close>

lemma keeps_fill_pair:
  assumes inv: "cyk_inv n words st" and r: "i + j < n" "k < j"
    and B: "B \<in> set (cell (fst st) i k)"
    and C: "C \<in> set (cell (fst st) (i + k + 1) (j - k - 1))"
  shows "keeps n words st (fill_pair reverse i j k B C st)"
proof (cases "reverse [B, C] \<noteq> []")
  case True
  have "keeps n words st
      (fold (\<lambda>A st. add_entry i j A (Split B C k i (i + k + 1)) st) (reverse [B, C]) st)"
  proof (rule keeps_fold[OF inv])
    fix A s
    assume s: "keeps n words st s"
    then have inv': "cyk_inv n words s" and g: "grows st s" by (auto simp: keeps_def)
    have "entry_ok words (fst st) i j (Split B C k i (i + k + 1))"
      using r B C by (simp add: entry_ok_def)
    then have "entry_ok words (fst s) i j (Split B C k i (i + k + 1))"
      using g by (rule entry_ok_grows)
    then show "keeps n words s (add_entry i j A (Split B C k i (i + k + 1)) s)"
      using r by (intro keeps_add_entry[OF inv']) auto
  qed
  then show ?thesis using True by (simp add: fill_pair_def)
next
  case False
  then show ?thesis using keeps_refl[OF inv] by (simp add: fill_pair_def)
qed

lemma keeps_fill_split:
  assumes inv: "cyk_inv n words st" and r: "i + j < n" "k < j"
  shows "keeps n words st (fill_split so reverse i j k st)"
proof -
  let ?left = "cell (fst st) i k"
  let ?right = "cell (fst st) (i + k + 1) (j - k - 1)"
  have "keeps n words st
      (fold (\<lambda>B st. fold (\<lambda>C st. fill_pair reverse i j k B C st) (visit so ?right) st)
         (visit so ?left) st)"
  proof (rule keeps_fold[OF inv])
    fix B s
    assume B: "B \<in> set (visit so ?left)" and s: "keeps n words st s"
    then have inv': "cyk_inv n words s" and g: "grows st s" by (auto simp: keeps_def)
    show "keeps n words s (fold (\<lambda>C st. fill_pair reverse i j k B C st) (visit so ?right) s)"
    proof (rule keeps_fold[OF inv'])
      fix C s'
      assume C: "C \<in> set (visit so ?right)" and s': "keeps n words s s'"
      then have inv'': "cyk_inv n words s'" and g': "grows st s'"
        using g grows_trans by (auto simp: keeps_def)
      have "B \<in> set (cell (fst s') i k)" "C \<in> set (cell (fst s') (i + k + 1) (j - k - 1))"
        using B C g' unfolding grows_def by auto
      then show "keeps n words s' (fill_pair reverse i j k B C s')"
        by (intro keeps_fill_pair[OF inv'' r])
    qed
  qed
  then show ?thesis by (simp add: fill_split_def Let_def)
qed

lemma keeps_fill_length:
  assumes inv: "cyk_inv n words st" and len: "2 \<le> len" "len \<le> n"
  shows "keeps n words st (fill_length so reverse n len st)"
  unfolding fill_length_def
proof (rule keeps_fold[OF inv])
  fix i s
  assume i: "i \<in> set [0..<n - len + 1]" and s: "keeps n words st s"
  then have inv': "cyk_inv n words s" by (simp add: keeps_def)
  have "keeps n words s (fold (\<lambda>k st. fill_split so reverse i (len - 1) k st) [0..<len - 1] s)"
  proof (rule keeps_fold[OF inv'])
    fix k s'
    assume k: "k \<in> set [0..<len - 1]" and "keeps n words s s'"
    then have "cyk_inv n words s'" by (simp add: keeps_def)
    moreover have "i + (len - 1) < n" "k < len - 1" using i k len by auto
    ultimately show "keeps n words s' (fill_split so reverse i (len - 1) k s')"
      by (intro keeps_fill_split)
  qed
  then show "keeps n words s
      (let j = len - 1 in fold (\<lambda>k st. fill_split so reverse i j k st) [0..<len - 1] s)"
    by (simp add: Let_def)
qed

lemma keeps_fill_table:
  assumes "cyk_inv n words st"
  shows "keeps n words st (fill_table so reverse n st)"
  unfolding fill_table_def
proof (rule keeps_fold[OF assms])
  fix len s
  assume "len \<in> set [2..<n + 1]" "keeps n words st s"
  then show "keeps n words s (fill_length so reverse n len s)"
    by (intro keeps_fill_length) (auto simp: keeps_def)
qed

lemma cell_replicate: "i < n \<Longrightarrow> j < n \<Longrightarrow> cell (replicate n (replicate n x)) i j = x"
  by (simp add: cell_def)

lemma cyk_inv_cyk: "cyk_inv (length words) words (cyk so g words)"
proof -
  let ?n = "length words"
  let ?st0 = "(replicate ?n (replicate ?n []), replicate ?n (replicate ?n (\<lambda>_. [])))
      :: table \<times> backpointers"
  have "cyk_inv ?n words ?st0"
    by (simp add: cyk_inv_def shape_replicate cell_replicate)
  then have "cyk_inv ?n words (fill_diagonal g words ?st0)"
    using keeps_fill_diagonal by (simp add: keeps_def)
  then have "cyk_inv ?n words
      (fill_table so (build_reverse_grammar g) ?n (fill_diagonal g words ?st0))"
    using keeps_fill_table by (simp add: keeps_def)
  then show ?thesis by (simp add: cyk_def Let_def)
qed

section \<open>The parse tree\<close>

lemma py_nth_nat: "i < length xs \<Longrightarrow> py_nth xs (int i) = Inr (xs ! i)"
  by (simp add: py_nth_def Let_def)

lemma take_one_drop: "i < length xs \<Longrightarrow> take (Suc 0) (drop i xs) = [xs ! i]"
  by (metis Cons_nth_drop_Suc take0 take_Suc_Cons)

lemma take_span:
  assumes "k < j"
  shows "take (Suc k) (drop i xs) @ take (Suc (j - k - 1)) (drop (i + k + 1) xs)
       = take (Suc j) (drop i xs)"
proof -
  have "Suc j = Suc k + Suc (j - k - 1)" using assms by simp
  then have "take (Suc j) (drop i xs)
      = take (Suc k) (drop i xs) @ take (Suc (j - k - 1)) (drop (Suc k) (drop i xs))"
    by (metis take_add)
  moreover have "drop (Suc k) (drop i xs) = drop (i + k + 1) xs"
    by (simp add: add.commute)
  ultimately show ?thesis by simp
qed

text \<open>
  With the invariant of the table, \<open>build_tree\<close> for a symbol of a cell returns a tree
  with that symbol at its root and the words of the span at its leaves, as soon as the
  allowed depth of recursion exceeds the index \<open>j\<close> of the span.
\<close>

lemma build_tree_span:
  assumes inv: "cyk_inv n words st" and n: "length words = n"
  shows "i + j < n \<Longrightarrow> A \<in> set (cell (fst st) i j) \<Longrightarrow> j < depth \<Longrightarrow>
     \<exists>t. build_tree depth (snd st) A (int i) (int j) = Inr (Some t) \<and> root t = A \<and>
         leaves t = take (Suc j) (drop i words)"
proof (induction depth arbitrary: A i j)
  case 0
  then show ?case by simp
next
  case (Suc depth)
  have i: "i < n" and j: "j < n" using Suc.prems(1) by auto
  have sh: "shape n (snd st)" using inv by (simp add: cyk_inv_def)
  have row: "py_nth (snd st) (int i) = Inr (snd st ! i)"
    using sh i by (intro py_nth_nat) (simp add: shape_def)
  have "length (snd st ! i) = n" using sh i by (simp add: shape_def)
  then have col: "py_nth (snd st ! i) (int j) = Inr (cell (snd st) i j)"
    using j by (simp add: py_nth_nat cell_def)
  have ne: "cell (snd st) i j A \<noteq> []"
    using inv i j Suc.prems(2) unfolding cyk_inv_def by blast
  then obtain e es where es: "cell (snd st) i j A = e # es"
    by (cases "cell (snd st) i j A") auto
  then have "e \<in> set (cell (snd st) i j A)" by simp
  then have ok: "entry_ok words (fst st) i j e"
    using inv i j unfolding cyk_inv_def by blast
  show ?case
  proof (cases e)
    case (Leaf w)
    then have j0: "j = 0" and w: "w = words ! i" using ok by (auto simp: entry_ok_def)
    have "build_tree (Suc depth) (snd st) A (int i) (int j) = Inr (Some (Terminal A w))"
      using row col es Leaf j0 by simp
    moreover have "leaves (Terminal A w) = take (Suc j) (drop i words)"
      using j0 w i n by (simp add: take_one_drop)
    ultimately show ?thesis by simp
  next
    case (Split B C k left_start right_start)
    then have k: "k < j" and ls: "left_start = i" and rs: "right_start = i + k + 1"
      and B: "B \<in> set (cell (fst st) i k)"
      and C: "C \<in> set (cell (fst st) (i + k + 1) (j - k - 1))"
      using ok by (auto simp: entry_ok_def)
    have "i + k < n" "k < depth" using k Suc.prems(1,3) by auto
    from Suc.IH[OF this(1) B this(2)] obtain l where
      l: "build_tree depth (snd st) B (int i) (int k) = Inr (Some l)" "root l = B"
         "leaves l = take (Suc k) (drop i words)"
      by blast
    have "(i + k + 1) + (j - k - 1) < n" "j - k - 1 < depth" using k Suc.prems(1,3) by auto
    from Suc.IH[OF this(1) C this(2)] obtain r where
      r: "build_tree depth (snd st) C (int (i + k + 1)) (int (j - k - 1)) = Inr (Some r)"
         "root r = C" "leaves r = take (Suc (j - k - 1)) (drop (i + k + 1) words)"
      by blast
    have jk: "int j - int k - 1 = int (j - k - 1)" using k by simp
    have j0: "int j \<noteq> 0" using k by simp
    have "build_tree (Suc depth) (snd st) A (int i) (int j)
        = Inr (Some (Node A (Some l) (Some r)))"
      using row col es Split ls rs l(1) r(1) jk j0 by simp
    moreover have "leaves (Node A (Some l) (Some r)) = take (Suc j) (drop i words)"
      using l(3) r(3) take_span[OF k] by simp
    ultimately show ?thesis by simp
  qed
qed

text \<open>What an accepting \<open>parse\<close> hands to \<open>build_parse_tree\<close>.\<close>

lemma parse_accepts:
  assumes "parse so cnf_grammar sentence = Inr (True, parse_data)"
  shows "parse_data = Some (fst (cyk so (rules cnf_grammar) (str_split (str_lower sentence))),
                           snd (cyk so (rules cnf_grammar) (str_split (str_lower sentence))),
                           str_split (str_lower sentence)) \<and>
         str_split (str_lower sentence) \<noteq> [] \<and>
         start cnf_grammar \<in> set (cell (fst (cyk so (rules cnf_grammar)
             (str_split (str_lower sentence)))) 0 (length (str_split (str_lower sentence)) - 1))"
  using assms by (auto simp: parse_def Let_def split: prod.splits if_splits)

lemma build_parse_tree_accepted:
  assumes "parse so cnf_grammar sentence = Inr (True, parse_data)"
    and "length (str_split (str_lower sentence)) \<le> depth"
  shows "\<exists>t. build_parse_tree depth cnf_grammar parse_data = Inr (Some t) \<and>
             root t = start cnf_grammar \<and> leaves t = str_split (str_lower sentence)"
proof -
  let ?words = "str_split (str_lower sentence)"
  let ?n = "length ?words"
  let ?st = "cyk so (rules cnf_grammar) ?words"
  note p = parse_accepts[OF assms(1)]
  have n: "0 < ?n" using p by simp
  have inv: "cyk_inv ?n ?words ?st" by (rule cyk_inv_cyk)
  have "0 + (?n - 1) < ?n" "?n - 1 < depth" using n assms(2) by linarith+
  from build_tree_span[OF inv refl this(1) _ this(2), of "start cnf_grammar"] p
  obtain t where t: "build_tree depth (snd ?st) (start cnf_grammar) (int 0) (int (?n - 1))
        = Inr (Some t)" "root t = start cnf_grammar"
      "leaves t = take (Suc (?n - 1)) (drop 0 ?words)"
    by blast
  have "int (?n - 1) = int ?n - 1" using n by linarith
  then have "build_parse_tree depth cnf_grammar parse_data = Inr (Some t)"
    using p t(1) by (simp add: build_parse_tree_def)
  moreover have "leaves t = ?words" using t(3) n by simp
  ultimately show ?thesis using t(2) by blast
qed

text \<open>
  C6: for every sentence that \<open>parse\<close> accepts, \<open>build_parse_tree\<close> on the parse data
  returns a tree whose terminal leaves, from left to right, are the words of the
  sentence, provided the interpreter allows a depth of recursion of at least the number
  of words.
\<close>

theorem build_parse_tree_leaves:
  assumes "parse so cnf_grammar sentence = Inr (True, parse_data)"
    and "length (str_split (str_lower sentence)) \<le> depth"
  shows "\<exists>t. build_parse_tree depth cnf_grammar parse_data = Inr (Some t) \<and>
             leaves t = str_split (str_lower sentence)"
  using build_parse_tree_accepted[OF assms] by blast

text \<open>
  C10: after the two steps of \<open>parse\<close>, every non-terminal of a cell \<open>table[i][j]\<close> has at
  least one entry in \<open>backpointer[i][j]\<close>; and whenever \<open>parse\<close> accepts,
  \<open>build_parse_tree\<close> returns a tree, not \<open>None\<close>, with the start symbol of the grammar at
  its root (the allowed depth of recursion being at least the number of words).
\<close>

theorem table_symbols_have_backpointers:
  assumes "words = str_split (str_lower sentence)"
    and "cyk so (rules cnf_grammar) words = (table, backpointer)"
  shows "(\<forall>i < length words. \<forall>j < length words. \<forall>A \<in> set (cell table i j).
            cell backpointer i j A \<noteq> []) \<and>
         (\<forall>parse_data depth.
            parse so cnf_grammar sentence = Inr (True, parse_data) \<longrightarrow> length words \<le> depth \<longrightarrow>
            (\<exists>t. build_parse_tree depth cnf_grammar parse_data = Inr (Some t) \<and>
                 root t = start cnf_grammar))"
proof -
  have "cyk_inv (length words) words (table, backpointer)"
    using cyk_inv_cyk[of words so "rules cnf_grammar"] assms(2) by simp
  then have "\<forall>i < length words. \<forall>j < length words. \<forall>A \<in> set (cell table i j).
            cell backpointer i j A \<noteq> []"
    unfolding cyk_inv_def by auto
  moreover have "\<forall>parse_data depth.
            parse so cnf_grammar sentence = Inr (True, parse_data) \<longrightarrow> length words \<le> depth \<longrightarrow>
            (\<exists>t. build_parse_tree depth cnf_grammar parse_data = Inr (Some t) \<and>
                 root t = start cnf_grammar)"
    using build_parse_tree_accepted[of so cnf_grammar sentence] assms(1) by blast
  ultimately show ?thesis by blast
qed

theorem build_parse_tree_leaves_witness:
  "\<exists>parse_data t.
     parse insertion_order
       \<lparr>start = ''S0'', rules = [(''S0'', [[''A'', ''B'']]), (''A'', [[''a'']]), (''B'', [[''b'']])]\<rparr>
       ''a b'' = Inr (True, parse_data) \<and>
     length (str_split (str_lower ''a b'')) \<le> 2 \<and>
     build_parse_tree 2
       \<lparr>start = ''S0'', rules = [(''S0'', [[''A'', ''B'']]), (''A'', [[''a'']]), (''B'', [[''b'']])]\<rparr>
       parse_data = Inr (Some t) \<and>
     leaves t = [''a'', ''b'']"
proof -
  let ?cnf = "\<lparr>start = ''S0'',
      rules = [(''S0'', [[''A'', ''B'']]), (''A'', [[''a'']]), (''B'', [[''b'']])]\<rparr>"
  have w: "str_split (str_lower ''a b'') = [''a'', ''b'']"
    by (simp add: str_split_def str_lower_def lower_char_def isspace_def whitespace_def
        uppercase_def lowercase_def)
  have "\<exists>pd. parse insertion_order ?cnf ''a b'' = Inr (True, pd)"
    unfolding parse_def w by (simp add: parse_eval Let_def)
  then obtain pd where pd: "parse insertion_order ?cnf ''a b'' = Inr (True, pd)"
    by blast
  have d: "length (str_split (str_lower ''a b'')) \<le> 2"
    unfolding w by simp
  from build_parse_tree_leaves[OF pd d] show ?thesis
    using pd d w by auto
qed

theorem table_symbols_have_backpointers_witness:
  "''S0'' \<in> set (cell (fst (cyk insertion_order
       [(''S0'', [[''A'', ''B'']]), (''A'', [[''a'']]), (''B'', [[''b'']])] [''a'', ''b''])) 0 1) \<and>
   cell (snd (cyk insertion_order
       [(''S0'', [[''A'', ''B'']]), (''A'', [[''a'']]), (''B'', [[''b'']])] [''a'', ''b''])) 0 1 ''S0''
     \<noteq> [] \<and>
   (\<exists>parse_data t.
      parse insertion_order
        \<lparr>start = ''S0'', rules = [(''S0'', [[''A'', ''B'']]), (''A'', [[''a'']]), (''B'', [[''b'']])]\<rparr>
        ''a b'' = Inr (True, parse_data) \<and>
      build_parse_tree 2
        \<lparr>start = ''S0'', rules = [(''S0'', [[''A'', ''B'']]), (''A'', [[''a'']]), (''B'', [[''b'']])]\<rparr>
        parse_data = Inr (Some t) \<and>
      root t = ''S0'')"
proof -
  let ?g = "[(''S0'', [[''A'', ''B'']]), (''A'', [[''a'']]), (''B'', [[''b'']])]"
  let ?cnf = "\<lparr>start = ''S0'', rules = ?g\<rparr>"
  let ?st = "cyk insertion_order ?g [''a'', ''b'']"
  have w: "[''a'', ''b''] = str_split (str_lower ''a b'')"
    by (simp add: str_split_def str_lower_def lower_char_def isspace_def whitespace_def
        uppercase_def lowercase_def)
  have c: "cyk insertion_order (rules ?cnf) [''a'', ''b''] = (fst ?st, snd ?st)"
    by simp
  note inst = table_symbols_have_backpointers[OF w c]
  have m: "''S0'' \<in> set (cell (fst ?st) 0 1)"
    by (simp add: parse_eval Let_def)
  have "\<exists>pd. parse insertion_order ?cnf ''a b'' = Inr (True, pd)"
    unfolding parse_def w[symmetric] by (simp add: parse_eval Let_def)
  then obtain pd where pd: "parse insertion_order ?cnf ''a b'' = Inr (True, pd)"
    by blast
  have bp: "cell (snd ?st) 0 1 ''S0'' \<noteq> []"
    using inst m by auto
  have "\<exists>t. build_parse_tree 2 ?cnf pd = Inr (Some t) \<and> root t = start ?cnf"
    using inst pd by auto
  then show ?thesis
    using m bp pd by auto
qed

section \<open>The shape of the converted grammar\<close>

text \<open>Every production of a grammar has a property.\<close>

definition all_prods :: "(production \<Rightarrow> bool) \<Rightarrow> grammar_rules \<Rightarrow> bool" where
  "all_prods P g \<longleftrightarrow> (\<forall>(var, productions) \<in> set g. \<forall>prd \<in> set productions. P prd)"

lemma all_prodsD: "all_prods P g \<Longrightarrow> (var, productions) \<in> set g \<Longrightarrow> prd \<in> set productions \<Longrightarrow> P prd"
  unfolding all_prods_def by blast

lemma all_prods_mono: "all_prods P g \<Longrightarrow> (\<And>prd. P prd \<Longrightarrow> Q prd) \<Longrightarrow> all_prods Q g"
  unfolding all_prods_def by blast

lemma all_prods_empty: "all_prods P []"
  by (simp add: all_prods_def)

lemma all_prods_dd_append:
  assumes "all_prods P d" "P x"
  shows "all_prods P (dd_append d k x)"
  unfolding all_prods_def
proof (intro ballI, clarify)
  fix v ps p
  assume "(v, ps) \<in> set (dd_append d k x)" "p \<in> set ps"
  then consider "(v, ps) \<in> set d" | "ps = dd_get d k @ [x]"
    using set_dd_append[of d k x] by auto
  then show "P p"
  proof cases
    case 1
    show ?thesis by (rule all_prodsD[OF assms(1) 1 \<open>p \<in> set ps\<close>])
  next
    case 2
    then have "p = x \<or> p \<in> set (dd_get d k)" using \<open>p \<in> set ps\<close> by auto
    then show ?thesis
      using assms dd_get_cases[of d k] by (auto dest: all_prodsD)
  qed
qed

lemma set_dict_set: "set (dict_set d k v) \<subseteq> insert (k, v) (set d)"
proof (induction d)
  case Nil
  then show ?case by simp
next
  case (Cons a d)
  obtain k' v' where a: "a = (k', v')" by (cases a)
  show ?case
  proof (cases "k' = k")
    case True
    then show ?thesis using a by auto
  next
    case False
    then have "set (dict_set (a # d) k v) = insert a (set (dict_set d k v))"
      using a by simp
    then show ?thesis using Cons.IH by auto
  qed
qed

lemma all_prods_dict_set:
  assumes "all_prods P d" "\<forall>p \<in> set v. P p"
  shows "all_prods P (dict_set d k v)"
  unfolding all_prods_def
proof (intro ballI, clarify)
  fix w ps p
  assume "(w, ps) \<in> set (dict_set d k v)" "p \<in> set ps"
  then have "(w, ps) = (k, v) \<or> (w, ps) \<in> set d"
    using set_dict_set[of d k v] by blast
  then show "P p"
    using assms \<open>p \<in> set ps\<close> by (auto dest: all_prodsD)
qed

lemma keys_dd_append: "fst ` set (dd_append d k x) = insert k (fst ` set d)"
proof (induction d)
  case Nil
  then show ?case by simp
next
  case (Cons a d)
  then show ?case by (cases a) (auto simp: insert_commute)
qed

text \<open>No key of a grammar has the empty list of productions.\<close>

definition no_empty_list :: "grammar_rules \<Rightarrow> bool" where
  "no_empty_list g \<longleftrightarrow> (\<forall>(var, productions) \<in> set g. productions \<noteq> [])"

lemma no_empty_list_dd_append:
  assumes "no_empty_list d"
  shows "no_empty_list (dd_append d k x)"
  unfolding no_empty_list_def
proof (intro ballI, clarify)
  fix w
  assume "(w, []) \<in> set (dd_append d k x)"
  then have "(w, []) = (k, dd_get d k @ [x]) \<or> (w, []) \<in> set d"
    using set_dd_append[of d k x] by blast
  then show False
    using assms unfolding no_empty_list_def by auto
qed

lemma no_empty_list_dict_set:
  assumes "no_empty_list d" "v \<noteq> []"
  shows "no_empty_list (dict_set d k v)"
  unfolding no_empty_list_def
proof (intro ballI, clarify)
  fix w
  assume "(w, []) \<in> set (dict_set d k v)"
  then have "(w, []) = (k, v) \<or> (w, []) \<in> set d"
    using set_dict_set[of d k v] by blast
  then show False
    using assms unfolding no_empty_list_def by auto
qed

subsection \<open>After the unit pass\<close>

lemma all_prods_add_production:
  assumes "all_prods P d" "P prd"
  shows "all_prods P (add_production d var prd)"
  unfolding all_prods_def
proof (intro ballI, clarify)
  fix v ps p
  assume m: "(v, ps) \<in> set (add_production d var prd)" "p \<in> set ps"
  from set_add_production[OF m(1)]
  consider "(v, ps) \<in> set d" | "ps = []" | "ps = dd_get d var @ [prd]" by blast
  then show "P p"
  proof cases
    case 1
    then show ?thesis using assms(1) m(2) by (auto dest: all_prodsD)
  next
    case 2
    then show ?thesis using m(2) by simp
  next
    case 3
    then have "p = prd \<or> p \<in> set (dd_get d var)" using m(2) by auto
    then show ?thesis using assms dd_get_cases[of d var] by (auto dest: all_prodsD)
  qed
qed

lemma all_prods_build_pair:
  assumes "all_prods P g" "all_prods P d" "unit_build_pair g var B d = Inr d'"
  shows "all_prods P d'"
proof -
  from assms(3) obtain productions where m: "map_of g B = Some productions"
    and run: "foldM (unit_build_prod g var) productions d = Inr d'"
    by (auto simp: unit_build_pair_def split: option.splits)
  have mem: "(B, productions) \<in> set g" using m by (rule map_of_SomeD)
  show ?thesis
  proof (rule foldM_invariant[where I = "all_prods P", OF run assms(2)])
    fix x s s'
    assume x: "x \<in> set productions" and s: "all_prods P s"
      and step: "unit_build_prod g var x s = Inr s'"
    have "P x" using assms(1) mem x by (rule all_prodsD)
    then have "all_prods P (add_production s var x)"
      using s by (intro all_prods_add_production)
    then show "all_prods P s'"
      using step s by (auto simp: unit_build_prod_def split: if_splits)
  qed
qed

lemma all_prods_eliminate_unit:
  assumes "all_prods P g" "eliminate_unit_productions so g = Inr g'"
  shows "all_prods P g'"
proof -
  define up where "up = unit_pairs_loop so g (unit_pairs_init g)"
  have run: "foldM (\<lambda>(var, productions) new_grammar.
               foldM (unit_build_pair g var) (visit so (up var)) new_grammar) g [] = Inr g'"
    using assms(2) by (simp add: eliminate_unit_productions_def up_def)
  show ?thesis
  proof (rule foldM_invariant[where I = "all_prods P", OF run all_prods_empty])
    fix x :: "symbol \<times> production list" and s s'
    assume s: "all_prods P s"
      and step: "(case x of (var, productions) \<Rightarrow> \<lambda>new_grammar.
               foldM (unit_build_pair g var) (visit so (up var)) new_grammar) s = Inr s'"
    obtain var productions where xx: "x = (var, productions)" by (cases x)
    have "foldM (unit_build_pair g var) (visit so (up var)) s = Inr s'"
      using step xx by simp
    then show "all_prods P s'"
      using s
      by (rule foldM_invariant[where I = "all_prods P"]) (rule all_prods_build_pair[OF assms(1)])
  qed
qed

lemma set_eliminate_start_symbol:
  assumes "(var, productions) \<in> set (eliminate_start_symbol G)"
  shows "(var = ''S0'' \<and> productions = [[start G]]) \<or>
         (\<exists>ps. (var, ps) \<in> set (rules G) \<and> productions = map str_split ps)"
proof -
  let ?I = "\<lambda>g. \<forall>(var, productions) \<in> set g.
      (var = ''S0'' \<and> productions = [[start G]]) \<or>
      (\<exists>ps. (var, ps) \<in> set (rules G) \<and> productions = map str_split ps)"
  have "?I (fold (\<lambda>(var, productions) g. dict_set g var (map str_split productions))
       (rules G) (dict_set [] ''S0'' [[start G]]))"
  proof (rule fold_invariant[where I = ?I])
    show "?I (dict_set [] ''S0'' [[start G]])" by simp
  next
    fix x :: "symbol \<times> string list" and s :: grammar_rules
    assume x: "x \<in> set (rules G)" and s: "?I s"
    obtain v ps where xx: "x = (v, ps)" by (cases x)
    have sub: "set (dict_set s v (map str_split ps)) \<subseteq> insert (v, map str_split ps) (set s)"
      by (rule set_dict_set)
    have "?I (dict_set s v (map str_split ps))"
    proof (intro ballI)
      fix e
      assume "e \<in> set (dict_set s v (map str_split ps))"
      then have "e = (v, map str_split ps) \<or> e \<in> set s" using sub by blast
      then show "case e of (var, productions) \<Rightarrow>
          (var = ''S0'' \<and> productions = [[start G]]) \<or>
          (\<exists>ps. (var, ps) \<in> set (rules G) \<and> productions = map str_split ps)"
      proof
        assume "e = (v, map str_split ps)"
        then show ?thesis using x xx by auto
      next
        assume "e \<in> set s"
        then show ?thesis using s by blast
      qed
    qed
    then show "?I ((case x of (var, productions) \<Rightarrow>
        \<lambda>g. dict_set g var (map str_split productions)) s)"
      using xx by simp
  qed
  then show ?thesis
    using assms unfolding eliminate_start_symbol_def by blast
qed

lemma keys_eliminate_start_symbol:
  "fst ` set (eliminate_start_symbol G) = insert ''S0'' (fst ` set (rules G))"
proof -
  have "\<And>g. fst ` set (fold (\<lambda>(var, productions) g. dict_set g var (map str_split productions))
       xs g) = fst ` set g \<union> fst ` set xs" for xs :: "(symbol \<times> string list) list"
  proof (induction xs)
    case Nil
    then show ?case by simp
  next
    case (Cons a xs)
    show ?case by (cases a) (auto simp: Cons.IH keys_dict_set)
  qed
  then show ?thesis
    by (simp add: eliminate_start_symbol_def)
qed

subsection \<open>What the unit pass keeps\<close>

text \<open>The productions of a grammar and the symbols of their bodies.\<close>

definition productions_of :: "grammar_rules \<Rightarrow> production list" where
  "productions_of g = concat (map snd g)"

definition body_symbols :: "grammar_rules \<Rightarrow> symbol list" where
  "body_symbols g = concat (productions_of g)"

text \<open>The test of \<open>eliminate_unit_productions\<close> for a unit production:
  \<open>len(prod) == 1 and prod[0] in self.grammar\<close>.\<close>

definition unit_production :: "grammar_rules \<Rightarrow> production \<Rightarrow> bool" where
  "unit_production g prd \<longleftrightarrow> length prd = 1 \<and> dict_in (prd ! 0) g"

text \<open>A non-terminal of the grammar all of whose productions are unit productions.\<close>

definition only_unit_productions :: "grammar_rules \<Rightarrow> symbol \<Rightarrow> bool" where
  "only_unit_productions g symbol \<longleftrightarrow>
     (case map_of g symbol of
        None \<Rightarrow> False
      | Some productions \<Rightarrow> list_all (unit_production g) productions)"

text \<open>A production of the grammar that is one symbol without an entry in the grammar.\<close>

definition lone_undefined :: "grammar_rules \<Rightarrow> production \<Rightarrow> bool" where
  "lone_undefined g prd \<longleftrightarrow>
     prd \<in> set (productions_of g) \<and> length prd = 1 \<and> \<not> dict_in (prd ! 0) g"

lemma productions_ofI:
  "(var, productions) \<in> set g \<Longrightarrow> prd \<in> set productions \<Longrightarrow> prd \<in> set (productions_of g)"
  unfolding productions_of_def by force

lemma productions_ofE:
  assumes "prd \<in> set (productions_of g)"
  obtains var productions where "(var, productions) \<in> set g" "prd \<in> set productions"
  using assms unfolding productions_of_def by auto

lemma body_symbolsI:
  "prd \<in> set (productions_of g) \<Longrightarrow> symbol \<in> set prd \<Longrightarrow> symbol \<in> set (body_symbols g)"
  unfolding body_symbols_def by auto

lemma all_prods_productions_of: "all_prods (\<lambda>prd. prd \<in> set (productions_of g)) g"
  unfolding all_prods_def by (auto intro: productions_ofI)

text \<open>A loop that has returned went through each of its elements.\<close>

lemma foldM_reaches:
  assumes "foldM f xs s = Inr s'" "x \<in> set xs"
    and "\<And>s s'. f x s = Inr s' \<Longrightarrow> Q s'"
    and "\<And>y s s'. y \<in> set xs \<Longrightarrow> f y s = Inr s' \<Longrightarrow> Q s \<Longrightarrow> Q s'"
  shows "Q s'"
  using assms
proof (induction xs arbitrary: s)
  case Nil
  then show ?case by simp
next
  case (Cons y ys)
  from Cons.prems(1) obtain s1 where s1: "f y s = Inr s1" "foldM f ys s1 = Inr s'"
    by (auto split: sum.splits)
  show ?case
  proof (cases "x = y")
    case True
    then have "Q s1" using Cons.prems(3) s1(1) by simp
    with s1(2) show ?thesis
    proof (rule foldM_invariant[where I = Q])
      fix z t t'
      assume "z \<in> set ys" "Q t" "f z t = Inr t'"
      then show "Q t'" using Cons.prems(4)[of z t t'] by simp
    qed
  next
    case False
    then have x: "x \<in> set ys" using Cons.prems(2) by simp
    show ?thesis
    proof (rule Cons.IH[OF s1(2) x])
      fix t t'
      assume "f x t = Inr t'"
      then show "Q t'" by (rule Cons.prems(3))
    next
      fix z t t'
      assume "z \<in> set ys" "f z t = Inr t'" "Q t"
      then show "Q t'" using Cons.prems(4)[of z t t'] by simp
    qed
  qed
qed

lemma keys_dd_touch: "fst ` set (dd_touch d k) = insert k (fst ` set d)"
  by (auto simp: dd_touch_def dict_in_def)

lemma keys_add_production: "fst ` set (add_production d var prd) = insert var (fst ` set d)"
  by (simp add: add_production_def Let_def keys_dd_append keys_dd_touch)

lemma keys_unit_build_prod:
  assumes "unit_build_prod g var prd d = Inr d'"
  shows "fst ` set d \<subseteq> fst ` set d' \<and> (\<not> unit_production g prd \<longrightarrow> var \<in> fst ` set d')"
proof (cases "length prd > 1")
  case True
  then have "d' = add_production d var prd"
    using assms by (simp add: unit_build_prod_def)
  then show ?thesis by (auto simp: keys_add_production)
next
  case False
  then have ne: "prd \<noteq> []"
    using assms by (auto simp: unit_build_prod_def split: if_splits)
  then have "0 < length prd" by simp
  then have one: "length prd = 1" using False by linarith
  show ?thesis
  proof (cases "dict_in (prd ! 0) g")
    case True
    then have "d' = d" "unit_production g prd"
      using assms False ne one by (simp_all add: unit_build_prod_def unit_production_def)
    then show ?thesis by simp
  next
    case F: False
    then have "d' = add_production d var prd"
      using assms False ne by (simp add: unit_build_prod_def)
    then show ?thesis by (auto simp: keys_add_production)
  qed
qed

lemma keys_unit_build_pair:
  assumes "unit_build_pair g var B d = Inr d'"
  shows "fst ` set d \<subseteq> fst ` set d'"
proof -
  from assms obtain productions where
    f: "foldM (unit_build_prod g var) productions d = Inr d'"
    by (auto simp: unit_build_pair_def split: option.splits)
  show ?thesis
  proof (rule foldM_invariant[where I = "\<lambda>s. fst ` set d \<subseteq> fst ` set s", OF f])
    fix x s s'
    assume "fst ` set d \<subseteq> fst ` set s" "unit_build_prod g var x s = Inr s'"
    then show "fst ` set d \<subseteq> fst ` set s'"
      using keys_unit_build_prod[of g var x s s'] by blast
  qed simp
qed

text \<open>A non-terminal that has a production other than a unit production keeps an entry.\<close>

lemma eliminate_unit_keeps_key:
  assumes run: "eliminate_unit_productions so g = Inr g'"
    and m: "map_of g symbol = Some productions"
    and prd: "prd \<in> set productions" "\<not> unit_production g prd"
  shows "dict_in symbol g'"
proof -
  define up where "up = unit_pairs_loop so g (unit_pairs_init g)"
  have ok: "pairs_ok g up" unfolding up_def by (rule pairs_ok_loop)
  have mem: "(symbol, productions) \<in> set g" using m by (rule map_of_SomeD)
  then have self: "symbol \<in> set (visit so (up symbol))"
    using ok by (auto simp: pairs_ok_def in_keysI)
  define Q where "Q = (\<lambda>d :: grammar_rules. symbol \<in> fst ` set d)"
  have pair_mono: "Q d'" if "unit_build_pair g var B d = Inr d'" "Q d" for var B d d'
    using keys_unit_build_pair[OF that(1)] that(2) unfolding Q_def by blast
  have pair_self: "Q d'" if p: "unit_build_pair g symbol symbol d = Inr d'" for d d'
  proof -
    have f: "foldM (unit_build_prod g symbol) productions d = Inr d'"
      using p m by (simp add: unit_build_pair_def)
    show ?thesis
    proof (rule foldM_reaches[where Q = Q, OF f prd(1)])
      fix s s'
      assume "unit_build_prod g symbol prd s = Inr s'"
      then show "Q s'"
        using keys_unit_build_prod[of g symbol prd s s'] prd(2) unfolding Q_def by blast
    next
      fix y s s'
      assume "unit_build_prod g symbol y s = Inr s'" "Q s"
      then show "Q s'"
        using keys_unit_build_prod[of g symbol y s s'] unfolding Q_def by blast
    qed
  qed
  have var_mono: "Q d'"
    if f: "foldM (unit_build_pair g var) (visit so (up var)) d = Inr d'" and q: "Q d" for var d d'
  proof (rule foldM_invariant[where I = Q, OF f q])
    fix x s s'
    assume "Q s" "unit_build_pair g var x s = Inr s'"
    then show "Q s'" using pair_mono by blast
  qed
  have var_self: "Q d'"
    if f: "foldM (unit_build_pair g symbol) (visit so (up symbol)) d = Inr d'" for d d'
  proof (rule foldM_reaches[where Q = Q, OF f self])
    fix s s'
    assume "unit_build_pair g symbol symbol s = Inr s'"
    then show "Q s'" by (rule pair_self)
  next
    fix y s s'
    assume "unit_build_pair g symbol y s = Inr s'" "Q s"
    then show "Q s'" by (rule pair_mono)
  qed
  have run': "foldM (\<lambda>(var, productions) new_grammar.
               foldM (unit_build_pair g var) (visit so (up var)) new_grammar) g [] = Inr g'"
    using run by (simp add: eliminate_unit_productions_def up_def)
  have "Q g'"
  proof (rule foldM_reaches[where Q = Q, OF run' mem])
    fix s s'
    assume "(case (symbol, productions) of (var, productions) \<Rightarrow> \<lambda>new_grammar.
               foldM (unit_build_pair g var) (visit so (up var)) new_grammar) s = Inr s'"
    then have "foldM (unit_build_pair g symbol) (visit so (up symbol)) s = Inr s'" by simp
    then show "Q s'" by (rule var_self)
  next
    fix y :: "symbol \<times> production list" and s s'
    assume step: "(case y of (var, productions) \<Rightarrow> \<lambda>new_grammar.
               foldM (unit_build_pair g var) (visit so (up var)) new_grammar) s = Inr s'"
      and q: "Q s"
    obtain var ps where y: "y = (var, ps)" by (cases y)
    have "foldM (unit_build_pair g var) (visit so (up var)) s = Inr s'"
      using step y by simp
    then show "Q s'" using q by (rule var_mono)
  qed
  then show ?thesis by (simp add: dict_in_def Q_def)
qed

text \<open>Every entry of the new grammar has a production.\<close>

lemma no_empty_list_add_production:
  assumes "no_empty_list d"
  shows "no_empty_list (add_production d var prd)"
proof (cases "dict_in var d")
  case True
  then have "add_production d var prd =
      (if prd \<notin> set (dd_get d var) then dd_append d var prd else d)"
    by (simp add: add_production_def dd_touch_def)
  then show ?thesis using assms by (simp add: no_empty_list_dd_append)
next
  case False
  then have k: "var \<notin> fst ` set d" by (simp add: dict_in_def)
  then have "map_of d var = None" by (simp add: map_of_eq_None_iff)
  then have "dd_get d var = []" by (simp add: dd_get_def)
  then have "add_production d var prd = dd_append (d @ [(var, [])]) var prd"
    using False dd_get_touch[of d var] by (simp add: add_production_def Let_def dd_touch_def)
  also have "\<dots> = d @ [(var, [] @ [prd])]" using k by (rule dd_append_last)
  finally show ?thesis using assms by (simp add: no_empty_list_def)
qed

lemma no_empty_list_eliminate_unit:
  assumes "eliminate_unit_productions so g = Inr g'"
  shows "no_empty_list g'"
proof -
  define up where "up = unit_pairs_loop so g (unit_pairs_init g)"
  have run: "foldM (\<lambda>(var, productions) new_grammar.
               foldM (unit_build_pair g var) (visit so (up var)) new_grammar) g [] = Inr g'"
    using assms by (simp add: eliminate_unit_productions_def up_def)
  have prod: "no_empty_list s'"
    if "no_empty_list s" "unit_build_prod g var x s = Inr s'" for var x s s'
    using that by (auto simp: unit_build_prod_def no_empty_list_add_production split: if_splits)
  have pair: "no_empty_list s'"
    if s: "no_empty_list s" and p: "unit_build_pair g var B s = Inr s'" for var B s s'
  proof -
    from p obtain productions where
      f: "foldM (unit_build_prod g var) productions s = Inr s'"
      by (auto simp: unit_build_pair_def split: option.splits)
    show ?thesis
      by (rule foldM_invariant[where I = no_empty_list, OF f s]) (rule prod)
  qed
  have init: "no_empty_list []" by (simp add: no_empty_list_def)
  show ?thesis
  proof (rule foldM_invariant[where I = no_empty_list, OF run init])
    fix x :: "symbol \<times> production list" and s s'
    assume s: "no_empty_list s"
      and step: "(case x of (var, productions) \<Rightarrow> \<lambda>new_grammar.
               foldM (unit_build_pair g var) (visit so (up var)) new_grammar) s = Inr s'"
    obtain var productions where xx: "x = (var, productions)" by (cases x)
    have f: "foldM (unit_build_pair g var) (visit so (up var)) s = Inr s'"
      using step xx by simp
    show "no_empty_list s'"
      by (rule foldM_invariant[where I = no_empty_list, OF f s]) (rule pair)
  qed
qed

text \<open>The productions after the unit pass: productions of the grammar it received,
  none of them empty and none of them a unit production.\<close>

definition after_unit :: "grammar_rules \<Rightarrow> production \<Rightarrow> bool" where
  "after_unit g1 prd \<longleftrightarrow>
     prd \<in> set (productions_of g1) \<and> prd \<noteq> [] \<and> \<not> unit_production g1 prd"

lemma after_unit_pass:
  assumes "eliminate_unit_productions so g1 = Inr g3"
  shows "all_prods (after_unit g1) g3"
proof -
  have src: "all_prods (\<lambda>prd. prd \<in> set (productions_of g1)) g3"
    using all_prods_productions_of assms by (rule all_prods_eliminate_unit)
  have uf: "unit_free g1 g3" using assms by (rule unit_free_eliminate)
  show ?thesis
    unfolding all_prods_def
  proof (intro ballI, clarify)
    fix var productions prd
    assume m: "(var, productions) \<in> set g3" "prd \<in> set productions"
    have a: "prd \<noteq> []" "\<not> (length prd = 1 \<and> dict_in (prd ! 0) g1)"
      using uf m unfolding unit_free_def by blast+
    have b: "prd \<in> set (productions_of g1)"
      using src m by (rule all_prodsD)
    show "after_unit g1 prd"
      using a b by (simp add: after_unit_def unit_production_def)
  qed
qed

subsection \<open>After \<open>convert_terminals\<close>\<close>

text \<open>
  A production after \<open>convert_terminals\<close>: one symbol, which is a terminal or makes a
  one-symbol production of the grammar \<open>g1\<close> with no entry there; or two or more symbols
  none of which is a terminal and all of which are in the set \<open>K\<close> of known symbols.
\<close>

definition shaped :: "grammar_rules \<Rightarrow> symbol set \<Rightarrow> production \<Rightarrow> bool" where
  "shaped g1 K prd \<longleftrightarrow>
     prd \<noteq> [] \<and> (length prd = 1 \<longrightarrow> is_terminal (prd ! 0) \<or> lone_undefined g1 prd) \<and>
     (length prd \<noteq> 1 \<longrightarrow> (\<forall>symbol \<in> set prd. \<not> is_terminal symbol \<and> symbol \<in> K))"

lemma shaped_mono: "shaped g1 K prd \<Longrightarrow> K \<subseteq> K' \<Longrightarrow> shaped g1 K' prd"
  unfolding shaped_def by blast

lemma fresh_not_terminal: "\<not> is_terminal (fst (get_new_variable c))"
  by (simp add: get_new_variable_def is_terminal_def str_islower_def uppercase_def)

definition terminals_inv ::
  "grammar_rules \<Rightarrow> symbol set \<Rightarrow> grammar_rules \<times> (symbol \<rightharpoonup> symbol) \<times> nat \<Rightarrow> bool" where
  "terminals_inv g1 K1 st \<longleftrightarrow>
     (case st of (new_grammar, terminal_vars, counter) \<Rightarrow>
        all_prods (shaped g1 (K1 \<union> fst ` set new_grammar)) new_grammar \<and>
        no_empty_list new_grammar \<and>
        (\<forall>t v. terminal_vars t = Some v \<longrightarrow> v \<in> fst ` set new_grammar \<and> \<not> is_terminal v))"

definition symbols_inv ::
  "grammar_rules \<Rightarrow> symbol set \<Rightarrow> nat \<Rightarrow> grammar_rules \<times> (symbol \<rightharpoonup> symbol) \<times> nat \<times> production \<Rightarrow> bool" where
  "symbols_inv g1 K1 n st \<longleftrightarrow>
     (case st of (new_grammar, terminal_vars, counter, new_prod) \<Rightarrow>
        terminals_inv g1 K1 (new_grammar, terminal_vars, counter) \<and>
        length new_prod = n \<and>
        (\<forall>s \<in> set new_prod. \<not> is_terminal s \<and> s \<in> K1 \<union> fst ` set new_grammar))"

lemma symbols_inv_step:
  assumes inv: "symbols_inv g1 K1 n st" and sym: "is_terminal symbol \<or> symbol \<in> K1"
  shows "symbols_inv g1 K1 (Suc n) (convert_symbol symbol st)"
proof -
  obtain ng tv c np where st: "st = (ng, tv, c, np)" by (cases st)
  have ap: "all_prods (shaped g1 (K1 \<union> fst ` set ng)) ng" and ne: "no_empty_list ng"
    and tvs: "\<And>t v. tv t = Some v \<Longrightarrow> v \<in> fst ` set ng \<and> \<not> is_terminal v"
    and len: "length np = n"
    and nps: "\<And>s. s \<in> set np \<Longrightarrow> \<not> is_terminal s \<and> s \<in> K1 \<union> fst ` set ng"
    using inv unfolding st symbols_inv_def terminals_inv_def by auto
  show ?thesis
  proof (cases "is_terminal symbol")
    case False
    then have "convert_symbol symbol st = (ng, tv, c, np @ [symbol])"
      by (simp add: convert_symbol_def st)
    moreover have "symbol \<in> K1" using sym False by simp
    ultimately show ?thesis
      using ap ne tvs len nps False unfolding symbols_inv_def terminals_inv_def by auto
  next
    case True
    show ?thesis
    proof (cases "tv symbol")
      case (Some v)
      then have "convert_symbol symbol st = (ng, tv, c, np @ [v])"
        using True by (simp add: convert_symbol_def st)
      then show ?thesis
        using ap ne tvs len nps tvs[OF Some] unfolding symbols_inv_def terminals_inv_def by auto
    next
      case None
      obtain nv c' where g: "get_new_variable c = (nv, c')" by (cases "get_new_variable c")
      have nt: "\<not> is_terminal nv" using fresh_not_terminal[of c] g by simp
      let ?ng = "dict_set ng nv [[symbol]]"
      have eq: "convert_symbol symbol st = (?ng, tv(symbol \<mapsto> nv), c', np @ [nv])"
        using True None g by (simp add: convert_symbol_def st)
      have keys: "fst ` set ?ng = insert nv (fst ` set ng)" by (rule keys_dict_set)
      have "all_prods (shaped g1 (K1 \<union> fst ` set ?ng)) ng"
        using ap by (rule all_prods_mono) (auto intro: shaped_mono simp: keys)
      moreover have "\<forall>p \<in> set [[symbol]]. shaped g1 (K1 \<union> fst ` set ?ng) p"
        using True by (simp add: shaped_def)
      ultimately have ap': "all_prods (shaped g1 (K1 \<union> fst ` set ?ng)) ?ng"
        by (rule all_prods_dict_set)
      have ne': "no_empty_list ?ng" using ne by (intro no_empty_list_dict_set) auto
      show ?thesis
        unfolding eq symbols_inv_def terminals_inv_def
        using ap' ne' tvs len nps nt by (auto simp: keys)
    qed
  qed
qed

lemma symbols_inv_fold:
  assumes "symbols_inv g1 K1 n st" "\<forall>symbol \<in> set prd. is_terminal symbol \<or> symbol \<in> K1"
  shows "symbols_inv g1 K1 (n + length prd) (fold convert_symbol prd st)"
  using assms
proof (induction prd arbitrary: n st)
  case Nil
  then show ?case by simp
next
  case (Cons a prd)
  have "symbols_inv g1 K1 (Suc n) (convert_symbol a st)"
    using Cons.prems by (intro symbols_inv_step) auto
  from Cons.IH[OF this] Cons.prems(2) show ?case by simp
qed

lemma terminals_inv_append:
  assumes "terminals_inv g1 K1 (ng, tv, c)" "shaped g1 (K1 \<union> insert var (fst ` set ng)) prd"
  shows "terminals_inv g1 K1 (dd_append ng var prd, tv, c)"
proof -
  have keys: "fst ` set (dd_append ng var prd) = insert var (fst ` set ng)"
    by (rule keys_dd_append)
  have "all_prods (shaped g1 (K1 \<union> fst ` set (dd_append ng var prd))) ng"
    using assms(1) unfolding terminals_inv_def
    by (auto intro: all_prods_mono shaped_mono simp: keys)
  then have "all_prods (shaped g1 (K1 \<union> fst ` set (dd_append ng var prd))) (dd_append ng var prd)"
    using assms(2) by (intro all_prods_dd_append) (auto simp: keys)
  then show ?thesis
    using assms(1) unfolding terminals_inv_def
    by (auto simp: keys no_empty_list_dd_append)
qed

lemma terminals_inv_production:
  assumes inv: "terminals_inv g1 (set (body_symbols g1)) st" and prd: "after_unit g1 prd"
  shows "terminals_inv g1 (set (body_symbols g1)) (convert_production var prd st)"
proof -
  let ?K1 = "set (body_symbols g1)"
  obtain ng tv c where st: "st = (ng, tv, c)" by (cases st)
  have p: "prd \<noteq> []" "length prd = 1 \<longrightarrow> lone_undefined g1 prd"
    "\<forall>symbol \<in> set prd. is_terminal symbol \<or> symbol \<in> ?K1"
    using prd by (auto simp: after_unit_def unit_production_def lone_undefined_def
        intro: body_symbolsI)
  show ?thesis
  proof (cases "length prd = 1")
    case True
    then have "shaped g1 (?K1 \<union> insert var (fst ` set ng)) prd"
      using p by (simp add: shaped_def)
    then have "terminals_inv g1 ?K1 (dd_append ng var prd, tv, c)"
      using inv unfolding st by (intro terminals_inv_append)
    then show ?thesis using True by (simp add: convert_production_def st)
  next
    case False
    obtain ng' tv' c' np where f: "fold convert_symbol prd (ng, tv, c, []) = (ng', tv', c', np)"
      by (cases "fold convert_symbol prd (ng, tv, c, [])") auto
    have "symbols_inv g1 ?K1 0 (ng, tv, c, [])"
      using inv unfolding st symbols_inv_def by simp
    from symbols_inv_fold[OF this p(3)]
    have si: "symbols_inv g1 ?K1 (length prd) (ng', tv', c', np)" using f by simp
    then have inv': "terminals_inv g1 ?K1 (ng', tv', c')" and len: "length np = length prd"
      and nps: "\<forall>s \<in> set np. \<not> is_terminal s \<and> s \<in> ?K1 \<union> fst ` set ng'"
      unfolding symbols_inv_def by auto
    have "shaped g1 (?K1 \<union> insert var (fst ` set ng')) np"
      using len nps False p(1) unfolding shaped_def by auto
    then have "terminals_inv g1 ?K1 (dd_append ng' var np, tv', c')"
      using inv' by (intro terminals_inv_append)
    then show ?thesis using False f by (simp add: convert_production_def st)
  qed
qed

lemma after_convert_terminals:
  assumes "all_prods (after_unit g1) g3" "convert_terminals g3 c = (g4, c4)"
  shows "all_prods (shaped g1 (set (body_symbols g1) \<union> fst ` set g4)) g4 \<and> no_empty_list g4"
proof -
  let ?K1 = "set (body_symbols g1)"
  have "terminals_inv g1 ?K1
      (fold (\<lambda>(var, productions) st. fold (convert_production var) productions st)
         g3 ([], Map.empty, c))"
  proof (rule fold_invariant[where I = "terminals_inv g1 ?K1"])
    show "terminals_inv g1 ?K1 ([], Map.empty, c)"
      by (simp add: terminals_inv_def all_prods_empty no_empty_list_def)
  next
    fix x :: "symbol \<times> production list" and s
    assume x: "x \<in> set g3" and s: "terminals_inv g1 ?K1 s"
    obtain var productions where xx: "x = (var, productions)" by (cases x)
    have "terminals_inv g1 ?K1 (fold (convert_production var) productions s)"
    proof (rule fold_invariant[where I = "terminals_inv g1 ?K1", OF s])
      fix p s'
      assume "p \<in> set productions" "terminals_inv g1 ?K1 s'"
      moreover from this have "after_unit g1 p"
        using assms(1) x xx by (auto dest: all_prodsD)
      ultimately show "terminals_inv g1 ?K1 (convert_production var p s')"
        by (intro terminals_inv_production)
    qed
    then show "terminals_inv g1 ?K1 ((case x of (var, productions) \<Rightarrow>
        \<lambda>st. fold (convert_production var) productions st) s)"
      using xx by simp
  qed
  then show ?thesis
    using assms(2) unfolding convert_terminals_def terminals_inv_def
    by (auto split: prod.splits)
qed

subsection \<open>After \<open>break_long_productions\<close>\<close>

text \<open>A production of the returned grammar, over the set \<open>K\<close> of known symbols.\<close>

definition cnf_prod :: "grammar_rules \<Rightarrow> symbol set \<Rightarrow> production \<Rightarrow> bool" where
  "cnf_prod g1 K prd \<longleftrightarrow>
     (length prd = 1 \<and> (is_terminal (prd ! 0) \<or> lone_undefined g1 prd)) \<or>
     (length prd = 2 \<and> (\<forall>symbol \<in> set prd. \<not> is_terminal symbol \<and> symbol \<in> K))"

lemma cnf_prod_mono: "cnf_prod g1 K prd \<Longrightarrow> K \<subseteq> K' \<Longrightarrow> cnf_prod g1 K' prd"
  unfolding cnf_prod_def by blast

lemma cnf_prod_append:
  assumes "all_prods (cnf_prod g1 K) ng" "cnf_prod g1 K' prd" "K \<subseteq> K'"
  shows "all_prods (cnf_prod g1 K') (dd_append ng var prd)"
proof -
  have "all_prods (cnf_prod g1 K') ng"
    using assms(1) by (rule all_prods_mono) (rule cnf_prod_mono[OF _ assms(3)])
  then show ?thesis using assms(2) by (rule all_prods_dd_append)
qed

lemma break_step_inv:
  assumes inv: "all_prods (cnf_prod g1 (K \<union> fst ` set ng \<union> {cur})) ng"
    and sym: "\<not> is_terminal (prd ! i)" "prd ! i \<in> K"
  shows "case break_step prd i (ng, c, cur) of (ng', c', cur') \<Rightarrow>
           all_prods (cnf_prod g1 (K \<union> fst ` set ng' \<union> {cur'})) ng' \<and>
           insert cur (fst ` set ng) \<subseteq> fst ` set ng'"
proof -
  obtain nv c' where g: "get_new_variable c = (nv, c')" by (cases "get_new_variable c")
  have nt: "\<not> is_terminal nv" using fresh_not_terminal[of c] g by simp
  let ?ng = "dd_append ng cur [prd ! i, nv]"
  have keys: "fst ` set ?ng = insert cur (fst ` set ng)" by (rule keys_dd_append)
  have "cnf_prod g1 (K \<union> fst ` set ?ng \<union> {nv}) [prd ! i, nv]"
    using sym nt by (simp add: cnf_prod_def)
  then have "all_prods (cnf_prod g1 (K \<union> fst ` set ?ng \<union> {nv})) ?ng"
    using inv by (intro cnf_prod_append[where K = "K \<union> fst ` set ng \<union> {cur}"]) (auto simp: keys)
  then show ?thesis
    using g keys by (auto simp: break_step_def)
qed

lemma break_steps_inv:
  assumes "all_prods (cnf_prod g1 (K \<union> fst ` set ng \<union> {cur})) ng"
    and "\<forall>i \<in> set is. \<not> is_terminal (prd ! i) \<and> prd ! i \<in> K"
  shows "case fold (break_step prd) is (ng, c, cur) of (ng', c', cur') \<Rightarrow>
           all_prods (cnf_prod g1 (K \<union> fst ` set ng' \<union> {cur'})) ng' \<and>
           fst ` set ng \<subseteq> fst ` set ng' \<and> (is \<noteq> [] \<longrightarrow> cur \<in> fst ` set ng')"
  using assms
proof (induction "is" arbitrary: ng c cur)
  case Nil
  then show ?case by simp
next
  case (Cons i "is")
  obtain ng1 c1 cur1 where s: "break_step prd i (ng, c, cur) = (ng1, c1, cur1)"
    by (cases "break_step prd i (ng, c, cur)") auto
  have one: "all_prods (cnf_prod g1 (K \<union> fst ` set ng1 \<union> {cur1})) ng1"
    "insert cur (fst ` set ng) \<subseteq> fst ` set ng1"
    using break_step_inv[OF Cons.prems(1), of prd i c] Cons.prems(2) s by auto
  have rest: "\<forall>i \<in> set is. \<not> is_terminal (prd ! i) \<and> prd ! i \<in> K"
    using Cons.prems(2) by simp
  show ?case
    using Cons.IH[OF one(1) rest, of c1] one(2) s by (auto split: prod.splits)
qed

lemma break_production_inv:
  assumes inv: "all_prods (cnf_prod g1 (K \<union> fst ` set ng)) ng"
    and prd: "shaped g1 K prd"
  shows "case break_production var prd (ng, c) of (ng', c') \<Rightarrow>
           all_prods (cnf_prod g1 (K \<union> fst ` set ng')) ng' \<and>
           insert var (fst ` set ng) \<subseteq> fst ` set ng'"
proof (cases "length prd \<le> 2")
  case True
  let ?ng = "dd_append ng var prd"
  have keys: "fst ` set ?ng = insert var (fst ` set ng)" by (rule keys_dd_append)
  have "0 < length prd" using prd by (simp add: shaped_def)
  then have "length prd = 1 \<or> length prd = 2"
    using True by linarith
  then have "cnf_prod g1 (K \<union> fst ` set ?ng) prd"
    using prd unfolding shaped_def cnf_prod_def by auto
  then have "all_prods (cnf_prod g1 (K \<union> fst ` set ?ng)) ?ng"
    using inv by (intro cnf_prod_append[where K = "K \<union> fst ` set ng"]) (auto simp: keys)
  then show ?thesis
    using True keys by (auto simp: break_production_def)
next
  case False
  then have long: "2 < length prd" by simp
  then have syms: "\<forall>symbol \<in> set prd. \<not> is_terminal symbol \<and> symbol \<in> K"
    using prd by (simp add: shaped_def)
  obtain ng' c' cur where
    f: "fold (break_step prd) [0..<length prd - 2] (ng, c, var) = (ng', c', cur)"
    by (cases "fold (break_step prd) [0..<length prd - 2] (ng, c, var)") auto
  have start: "all_prods (cnf_prod g1 (K \<union> fst ` set ng \<union> {var})) ng"
    using inv by (rule all_prods_mono) (auto intro: cnf_prod_mono)
  have idx: "\<forall>i \<in> set [0..<length prd - 2]. \<not> is_terminal (prd ! i) \<and> prd ! i \<in> K"
    using syms by auto
  have ne: "[0..<length prd - 2] \<noteq> []" using long by simp
  have steps: "all_prods (cnf_prod g1 (K \<union> fst ` set ng' \<union> {cur})) ng'"
    "fst ` set ng \<subseteq> fst ` set ng'" "var \<in> fst ` set ng'"
    using break_steps_inv[OF start idx, of c] f ne by auto
  let ?last = "drop (length prd - 2) prd"
  let ?ng = "dd_append ng' cur ?last"
  have keys: "fst ` set ?ng = insert cur (fst ` set ng')" by (rule keys_dd_append)
  have "length ?last = 2" using long by simp
  moreover have "set ?last \<subseteq> set prd" by (rule set_drop_subset)
  ultimately have "cnf_prod g1 (K \<union> fst ` set ?ng) ?last"
    using syms unfolding cnf_prod_def by auto
  then have "all_prods (cnf_prod g1 (K \<union> fst ` set ?ng)) ?ng"
    using steps(1)
    by (intro cnf_prod_append[where K = "K \<union> fst ` set ng' \<union> {cur}"]) (auto simp: keys)
  then show ?thesis
    using False f keys steps(2,3) by (auto simp: break_production_def)
qed

text \<open>The state of \<open>break_long_productions\<close>: productions in normal form over the known
  non-terminals and the keys so far.\<close>

definition break_inv :: "grammar_rules \<Rightarrow> symbol set \<Rightarrow> grammar_rules \<times> nat \<Rightarrow> bool" where
  "break_inv g1 K st \<longleftrightarrow> all_prods (cnf_prod g1 (K \<union> fst ` set (fst st))) (fst st)"

lemma break_inv_production:
  assumes "break_inv g1 K st" "shaped g1 K prd"
  shows "break_inv g1 K (break_production var prd st) \<and>
         insert var (fst ` set (fst st)) \<subseteq> fst ` set (fst (break_production var prd st))"
proof -
  obtain ng c where st: "st = (ng, c)" by (cases st)
  show ?thesis
    using break_production_inv[of g1 K ng prd var c] assms
    unfolding st break_inv_def by (auto split: prod.splits)
qed

lemma break_inv_productions:
  assumes "break_inv g1 K st" "\<forall>prd \<in> set productions. shaped g1 K prd"
  shows "break_inv g1 K (fold (break_production var) productions st) \<and>
         fst ` set (fst st) \<subseteq> fst ` set (fst (fold (break_production var) productions st)) \<and>
         (productions \<noteq> [] \<longrightarrow>
            var \<in> fst ` set (fst (fold (break_production var) productions st)))"
  using assms
proof (induction productions arbitrary: st)
  case Nil
  then show ?case by simp
next
  case (Cons p ps)
  have one: "break_inv g1 K (break_production var p st)"
    "insert var (fst ` set (fst st)) \<subseteq> fst ` set (fst (break_production var p st))"
    using break_inv_production[OF Cons.prems(1), of p var] Cons.prems(2) by auto
  have "\<forall>prd \<in> set ps. shaped g1 K prd" using Cons.prems(2) by simp
  from Cons.IH[OF one(1) this] one(2) show ?case by auto
qed

lemma break_long_inv:
  assumes "break_inv g1 K st" "all_prods (shaped g1 K) g" "no_empty_list g"
  shows "break_inv g1 K (fold (\<lambda>(var, productions) st. fold (break_production var) productions st) g st) \<and>
         fst ` set (fst st) \<union> fst ` set g \<subseteq>
           fst ` set (fst (fold (\<lambda>(var, productions) st.
                                  fold (break_production var) productions st) g st))"
  using assms
proof (induction g arbitrary: st)
  case Nil
  then show ?case by simp
next
  case (Cons a g)
  obtain var productions where a: "a = (var, productions)" by (cases a)
  have ps: "\<forall>prd \<in> set productions. shaped g1 K prd" "productions \<noteq> []"
    using Cons.prems(2,3) a by (auto simp: all_prods_def no_empty_list_def)
  let ?st = "fold (break_production var) productions st"
  have one: "break_inv g1 K ?st" "fst ` set (fst st) \<subseteq> fst ` set (fst ?st)"
    "var \<in> fst ` set (fst ?st)"
    using break_inv_productions[OF Cons.prems(1) ps(1), of var] ps(2) by auto
  have rest: "all_prods (shaped g1 K) g" "no_empty_list g"
    using Cons.prems(2,3) by (auto simp: all_prods_def no_empty_list_def)
  from Cons.IH[OF one(1) rest] one(2,3) show ?case
    using a by auto
qed

lemma after_break_long_productions:
  assumes "all_prods (shaped g1 (K1 \<union> fst ` set g4)) g4" "no_empty_list g4"
    and "break_long_productions g4 c4 = (g5, c5)"
  shows "all_prods (cnf_prod g1 (K1 \<union> fst ` set g5)) g5 \<and> fst ` set g4 \<subseteq> fst ` set g5"
proof -
  let ?K = "K1 \<union> fst ` set g4"
  have "break_inv g1 ?K ([], c4)" by (simp add: break_inv_def all_prods_empty)
  from break_long_inv[OF this assms(1,2)] assms(3)
  have inv: "break_inv g1 ?K (g5, c5)" and keys: "fst ` set g4 \<subseteq> fst ` set g5"
    by (auto simp: break_long_productions_def)
  have "?K \<union> fst ` set g5 = K1 \<union> fst ` set g5" using keys by auto
  then show ?thesis using inv keys by (simp add: break_inv_def)
qed

subsection \<open>The converted grammar\<close>

lemma convert_stages:
  assumes "convert so G = Inr R"
  shows "\<exists>g3 g4 c4 c5.
     eliminate_unit_productions so (eliminate_start_symbol G) = Inr g3 \<and>
     convert_terminals g3 0 = (g4, c4) \<and>
     break_long_productions g4 c4 = (rules R, c5)"
proof -
  obtain c where c: "run_passes so G = Inr c" and R: "R = \<lparr>start = start_symbol c, rules = grammar c\<rparr>"
    using assms by (auto simp: convert_def split: sum.splits)
  have "\<not> has_empty_production (eliminate_start_symbol G)"
    using run_passes_outcome[of so G] c by auto
  then have g2: "eliminate_epsilon_productions (eliminate_start_symbol G) = eliminate_start_symbol G"
    by (rule eliminate_epsilon_no_empty)
  show ?thesis
    using c unfolding R run_passes_def g2 Let_def
    by (auto split: sum.splits prod.splits)
qed

text \<open>Every non-terminal that has productions keeps its entry in \<open>convert_terminals\<close>.\<close>

lemma keys_convert_symbol:
  "fst ` set (fst st) \<subseteq> fst ` set (fst (convert_symbol symbol st))"
proof -
  obtain ng tv c np where st: "st = (ng, tv, c, np)" by (cases st)
  show ?thesis
    unfolding st
    by (auto simp: convert_symbol_def keys_dict_set split: option.splits prod.splits)
qed

lemma keys_convert_symbols:
  "fst ` set (fst st) \<subseteq> fst ` set (fst (fold convert_symbol prd st))"
proof (induction prd arbitrary: st)
  case Nil
  then show ?case by simp
next
  case (Cons a prd)
  have "fst ` set (fst st) \<subseteq> fst ` set (fst (convert_symbol a st))"
    by (rule keys_convert_symbol)
  also have "\<dots> \<subseteq> fst ` set (fst (fold convert_symbol prd (convert_symbol a st)))"
    by (rule Cons.IH)
  finally show ?case by simp
qed

lemma keys_convert_production:
  "insert var (fst ` set (fst st)) \<subseteq> fst ` set (fst (convert_production var prd st))"
proof -
  obtain ng tv c where st: "st = (ng, tv, c)" by (cases st)
  show ?thesis
  proof (cases "length prd = 1")
    case True
    then show ?thesis by (simp add: convert_production_def st keys_dd_append)
  next
    case False
    obtain ng' tv' c' np where f: "fold convert_symbol prd (ng, tv, c, []) = (ng', tv', c', np)"
      by (cases "fold convert_symbol prd (ng, tv, c, [])") auto
    have "fst ` set ng \<subseteq> fst ` set ng'"
      using keys_convert_symbols[of "(ng, tv, c, [])" prd] f by simp
    then show ?thesis
      using False f by (auto simp: convert_production_def st keys_dd_append)
  qed
qed

lemma keys_convert_productions:
  "fst ` set (fst st) \<subseteq> fst ` set (fst (fold (convert_production var) productions st)) \<and>
   (productions \<noteq> [] \<longrightarrow> var \<in> fst ` set (fst (fold (convert_production var) productions st)))"
proof (induction productions arbitrary: st)
  case Nil
  then show ?case by simp
next
  case (Cons p ps)
  let ?st = "convert_production var p st"
  have one: "insert var (fst ` set (fst st)) \<subseteq> fst ` set (fst ?st)"
    by (rule keys_convert_production)
  have rest: "fst ` set (fst ?st) \<subseteq> fst ` set (fst (fold (convert_production var) ps ?st))"
    using Cons.IH[of ?st] by blast
  have "insert var (fst ` set (fst st)) \<subseteq> fst ` set (fst (fold (convert_production var) ps ?st))"
    using one rest by (rule order_trans)
  then show ?case by simp
qed

lemma keys_convert_terminals_fold:
  assumes "no_empty_list g"
  shows "fst ` set (fst st) \<union> fst ` set g \<subseteq>
         fst ` set (fst (fold (\<lambda>(var, productions) st. fold (convert_production var) productions st)
                           g st))"
  using assms
proof (induction g arbitrary: st)
  case Nil
  then show ?case by simp
next
  case (Cons a g)
  obtain var productions where a: "a = (var, productions)" by (cases a)
  have ne: "productions \<noteq> []" and rest: "no_empty_list g"
    using Cons.prems a by (auto simp: no_empty_list_def)
  let ?st = "fold (convert_production var) productions st"
  have one: "fst ` set (fst st) \<subseteq> fst ` set (fst ?st)" "var \<in> fst ` set (fst ?st)"
    using keys_convert_productions[of st var productions] ne by auto
  from Cons.IH[OF rest, of ?st] one show ?case
    using a by auto
qed

lemma keys_convert_terminals:
  assumes "no_empty_list g3" "convert_terminals g3 c = (g4, c4)"
  shows "fst ` set g3 \<subseteq> fst ` set g4"
  using keys_convert_terminals_fold[OF assms(1), of "([], Map.empty, c)"] assms(2)
  by (auto simp: convert_terminals_def split: prod.splits)


subsection \<open>Grammars that follow the naming convention\<close>

text \<open>
  The strictest reading of the naming convention: no non-terminal (a key of the rules)
  passes the test for a terminal, every other symbol of a production does, and the
  start symbol is a non-terminal. For such a grammar a body of length 1 of the
  returned grammar is a terminal, and a non-terminal of a body of length 2 without an
  entry in the returned grammar is one with no production other than unit productions.
\<close>

definition naming_convention :: "string grammar_dict \<Rightarrow> bool" where
  "naming_convention G \<longleftrightarrow>
     dict_in (start G) (rules G) \<and>
     (\<forall>(var, productions) \<in> set (rules G).
        \<not> is_terminal var \<and>
        (\<forall>prd \<in> set productions. \<forall>symbol \<in> set (str_split prd).
           is_terminal symbol \<or> dict_in symbol (rules G)))"

lemma convention_symbols:
  assumes "naming_convention G"
  shows "all_prods (\<lambda>prd. \<forall>symbol \<in> set prd.
           is_terminal symbol \<or> dict_in symbol (eliminate_start_symbol G))
         (eliminate_start_symbol G)"
  unfolding all_prods_def
proof (intro ballI, clarify)
  fix var productions prd symbol
  assume m: "(var, productions) \<in> set (eliminate_start_symbol G)" "prd \<in> set productions"
    "symbol \<in> set prd" "\<not> dict_in symbol (eliminate_start_symbol G)"
  have k: "\<And>s. dict_in s (rules G) \<Longrightarrow> dict_in s (eliminate_start_symbol G)"
    by (simp add: dict_in_def keys_eliminate_start_symbol)
  from set_eliminate_start_symbol[OF m(1)] show "is_terminal symbol"
  proof
    assume "var = ''S0'' \<and> productions = [[start G]]"
    then have "symbol = start G" using m(2,3) by simp
    then show ?thesis using assms m(4) k by (auto simp: naming_convention_def)
  next
    assume "\<exists>ps. (var, ps) \<in> set (rules G) \<and> productions = map str_split ps"
    then obtain ps p where "(var, ps) \<in> set (rules G)" "p \<in> set ps" "prd = str_split p"
      using m(2) by auto
    then have "is_terminal symbol \<or> dict_in symbol (rules G)"
      using assms m(3) unfolding naming_convention_def by blast
    then show ?thesis using m(4) k by blast
  qed
qed

lemma convention_lone_undefined:
  assumes "naming_convention G" "lone_undefined (eliminate_start_symbol G) prd"
  shows "is_terminal (prd ! 0)"
proof -
  let ?g1 = "eliminate_start_symbol G"
  have p: "prd \<in> set (productions_of ?g1)" "length prd = 1" "\<not> dict_in (prd ! 0) ?g1"
    using assms(2) by (auto simp: lone_undefined_def)
  from p(1) obtain var productions where
    m: "(var, productions) \<in> set ?g1" "prd \<in> set productions"
    by (rule productions_ofE)
  have "\<forall>symbol \<in> set prd. is_terminal symbol \<or> dict_in symbol ?g1"
    using convention_symbols[OF assms(1)] m by (rule all_prodsD)
  moreover have "prd ! 0 \<in> set prd" using p(2) by (cases prd) auto
  ultimately show ?thesis using p(3) by blast
qed

lemma convention_defined:
  assumes "naming_convention G" "symbol \<in> set (body_symbols (eliminate_start_symbol G))"
    and "\<not> is_terminal symbol"
  shows "dict_in symbol (eliminate_start_symbol G)"
proof -
  let ?g1 = "eliminate_start_symbol G"
  from assms(2) obtain prd where p: "prd \<in> set (productions_of ?g1)" "symbol \<in> set prd"
    by (auto simp: body_symbols_def)
  from p(1) obtain var productions where
    m: "(var, productions) \<in> set ?g1" "prd \<in> set productions"
    by (rule productions_ofE)
  have "\<forall>symbol \<in> set prd. is_terminal symbol \<or> dict_in symbol ?g1"
    using convention_symbols[OF assms(1)] m by (rule all_prodsD)
  then show ?thesis using p(2) assms(3) by blast
qed



section \<open>Variables generated in one run\<close>

text \<open>
  The counter of \<open>get_new_variable\<close> only increases, and different counters give
  different names: two variables generated in the same run never coincide.
\<close>

lemma digit_char_inj:
  assumes "a < 10" "b < 10" "digit_char a = digit_char b"
  shows "a = b"
proof -
  have "distinct ''0123456789''" by simp
  moreover have "a < length ''0123456789''" "b < length ''0123456789''"
    using assms(1,2) by simp_all
  ultimately show ?thesis
    using assms(3) unfolding digit_char_def by (simp only: nth_eq_iff_index_eq)
qed

lemma str_nat_not_empty: "str_nat n \<noteq> []"
  by (subst str_nat.simps) (simp del: str_nat.simps)

lemma str_nat_inj: "str_nat m = str_nat n \<Longrightarrow> m = n"
proof (induction m arbitrary: n rule: str_nat.induct)
  case (1 m)
  show ?case
  proof (cases "m < 10")
    case True
    then have m: "str_nat m = [digit_char m]" by (subst str_nat.simps) (simp del: str_nat.simps)
    show ?thesis
    proof (cases "n < 10")
      case n: True
      then have "str_nat n = [digit_char n]" by (subst str_nat.simps) (simp del: str_nat.simps)
      then show ?thesis using "1.prems" m True n digit_char_inj by (simp del: str_nat.simps)
    next
      case False
      then have "str_nat n = str_nat (n div 10) @ [digit_char (n mod 10)]"
        by (subst str_nat.simps) (simp del: str_nat.simps)
      then show ?thesis using "1.prems" m str_nat_not_empty[of "n div 10"] by (simp del: str_nat.simps)
    qed
  next
    case False
    then have m: "str_nat m = str_nat (m div 10) @ [digit_char (m mod 10)]"
      by (subst str_nat.simps) (simp del: str_nat.simps)
    show ?thesis
    proof (cases "n < 10")
      case True
      then have "str_nat n = [digit_char n]" by (subst str_nat.simps) (simp del: str_nat.simps)
      then show ?thesis using "1.prems" m str_nat_not_empty[of "m div 10"] by (simp del: str_nat.simps)
    next
      case n: False
      then have "str_nat n = str_nat (n div 10) @ [digit_char (n mod 10)]"
        by (subst str_nat.simps) (simp del: str_nat.simps)
      then have eq: "str_nat (m div 10) = str_nat (n div 10)"
        "digit_char (m mod 10) = digit_char (n mod 10)"
        using "1.prems" m by (simp_all del: str_nat.simps)
      have "m div 10 = n div 10" using "1.IH"[OF False eq(1)] .
      moreover have "m mod 10 = n mod 10"
        using eq(2) by (intro digit_char_inj) simp_all
      ultimately show ?thesis by (metis div_mult_mod_eq)
    qed
  qed
qed

lemma get_new_variable_counter: "snd (get_new_variable c) = c + 1"
  by (simp add: get_new_variable_def)

lemma get_new_variable_distinct:
  "c \<noteq> c' \<Longrightarrow> fst (get_new_variable c) \<noteq> fst (get_new_variable c')"
  using str_nat_inj[of "c + 1" "c' + 1"] by (auto simp add: get_new_variable_def simp del: str_nat.simps)

end
